theory Spec2Isabelle
  imports Main "HOL-Library.Word"
begin

section \<open>Terminal Markdown presenter: a shallow embedding of present-markdown.mjs\<close>

subsection \<open>JavaScript strings\<close>

text \<open>
  A JavaScript string is a sequence of UTF-16 code units; \<open>length\<close> counts code units
  and the regular expressions of the script (none has the \<open>u\<close> flag) work on code units.
  Strings are modelled as unbounded lists: the engine's maximal string length is not
  modelled.
\<close>

type_synonym jschar = "16 word"
type_synonym jsstring = "jschar list"

definition js :: "string \<Rightarrow> jsstring" where
  "js s = map of_char s"

definition chSpace :: jschar where "chSpace = 0x20"
definition chNewline :: jschar where "chNewline = 0x0A"
definition chHash :: jschar where "chHash = 0x23"
definition chStar :: jschar where "chStar = 0x2A"
definition chUnderscore :: jschar where "chUnderscore = 0x5F"
definition chBacktick :: jschar where "chBacktick = 0x60"
definition chEsc :: jschar where "chEsc = 0x1B"

text \<open>
  \<open>LineTerminator\<close> of ECMAScript: LF, CR, U+2028, U+2029. The pattern character
  \<open>.\<close> (no \<open>s\<close> flag) matches every code unit but these.
\<close>

definition isLineTerminator :: "jschar \<Rightarrow> bool" where
  "isLineTerminator c = (c = 0x0A \<or> c = 0x0D \<or> c = 0x2028 \<or> c = 0x2029)"

text \<open>
  The class \<open>\s\<close> and the characters \<open>trim()\<close> strips: \<open>WhiteSpace\<close> (TAB, VT, FF,
  U+FEFF and the Unicode space separators) together with \<open>LineTerminator\<close>.
\<close>

definition isSpace :: "jschar \<Rightarrow> bool" where
  "isSpace c = (c = 0x09 \<or> c = 0x0B \<or> c = 0x0C \<or> c = 0x20 \<or> c = 0xA0 \<or> c = 0x1680
     \<or> (0x2000 \<le> c \<and> c \<le> 0x200A) \<or> c = 0x202F \<or> c = 0x205F \<or> c = 0x3000
     \<or> c = 0xFEFF \<or> isLineTerminator c)"

text \<open>\<open>String.prototype.split(sep)\<close> for a separator of one code unit.\<close>

fun split_on :: "'a \<Rightarrow> 'a list \<Rightarrow> 'a list list" where
  "split_on sep [] = [[]]"
| "split_on sep (c # cs) =
     (if c = sep then [] # split_on sep cs
      else (case split_on sep cs of [] \<Rightarrow> [[c]] | p # ps \<Rightarrow> (c # p) # ps))"

text \<open>\<open>Array.prototype.join(sep)\<close>.\<close>

fun join :: "'a list \<Rightarrow> 'a list list \<Rightarrow> 'a list" where
  "join sep [] = []"
| "join sep [x] = x"
| "join sep (x # y # ys) = x @ sep @ join sep (y # ys)"

text \<open>\<open>String.prototype.trim()\<close>.\<close>

definition trimStart :: "jsstring \<Rightarrow> jsstring" where
  "trimStart s = dropWhile isSpace s"

definition trimEnd :: "jsstring \<Rightarrow> jsstring" where
  "trimEnd s = rev (dropWhile isSpace (rev s))"

definition trim :: "jsstring \<Rightarrow> jsstring" where
  "trim s = trimEnd (trimStart s)"

text \<open>
  \<open>String.prototype.slice(start, end)\<close> on integers: a negative index counts from the
  end, both are clamped to the string.
\<close>

definition slice_str :: "'a list \<Rightarrow> int \<Rightarrow> int \<Rightarrow> 'a list" where
  "slice_str s start end =
     (let len = int (length s);
          from = (if start < 0 then max (len + start) 0 else min start len);
          to = (if end < 0 then max (len + end) 0 else min end len)
      in take (nat (to - from)) (drop (nat from) s))"

subsection \<open>The line wrapper\<close>

text \<open>
  The inner loop of \<open>wrapLine\<close>:
  \<^verbatim>\<open>for (let i = 0; i < w.length; i += width) result.push(w.slice(i, i + width));\<close>
  It does not end when \<open>width \<le> 0\<close> and \<open>w\<close> is not empty, so it is a partial function:
  \<open>None\<close> is "does not return".
\<close>

partial_function (option) chunk_loop ::
  "jsstring \<Rightarrow> int \<Rightarrow> int \<Rightarrow> jsstring list \<Rightarrow> jsstring list option" where
  "chunk_loop w width i result =
     (if i < int (length w)
      then chunk_loop w width (i + width) (result @ [slice_str w i (i + width)])
      else Some result)"

declare chunk_loop.simps [code]

text \<open>\<open>if (current) result.push(current)\<close>: the empty string is falsy.\<close>

definition flush :: "jsstring list \<Rightarrow> jsstring \<Rightarrow> jsstring list" where
  "flush result current = (if current \<noteq> [] then result @ [current] else result)"

text \<open>
  The \<open>for (const w of words)\<close> loop, on the state \<open>(result, current)\<close>.
\<close>

fun wrap_words ::
  "int \<Rightarrow> jsstring list \<Rightarrow> jsstring list \<times> jsstring \<Rightarrow> (jsstring list \<times> jsstring) option" where
  "wrap_words width [] st = Some st"
| "wrap_words width (w # ws) (result, current) =
     (if int (length w) > width then
        (case chunk_loop w width 0 (flush result current) of
           None \<Rightarrow> None
         | Some r \<Rightarrow> wrap_words width ws (r, []))
      else if int (length current) + int (length w) + 1 \<le> width then
        wrap_words width ws
          (result, current @ (if current \<noteq> [] then [chSpace] else []) @ w)
      else wrap_words width ws (flush result current, w))"

definition wrapLine :: "jsstring \<Rightarrow> int \<Rightarrow> jsstring list option" where
  "wrapLine line width =
     (case wrap_words width (split_on chSpace line) ([], []) of
        None \<Rightarrow> None
      | Some (result, current) \<Rightarrow> Some (flush result current))"

text \<open>
  The hard split of an overlong token, as the specification words it: fixed-size chunks
  of \<open>n\<close> characters, the last one possibly shorter. It is compared with the code's
  \<open>chunk_loop\<close> below.
\<close>

function hard_split :: "nat \<Rightarrow> 'a list \<Rightarrow> 'a list list" where
  "hard_split n xs = (if xs = [] \<or> n = 0 then [] else take n xs # hard_split n (drop n xs))"
  by pat_completeness auto
termination
  by (relation "measure (\<lambda>(n, xs). length xs)") auto

declare hard_split.simps [simp del]

subsection \<open>The line wrapper: termination, width bound, hard split\<close>

lemma slice_str_window:
  "0 \<le> i \<Longrightarrow> 0 < width \<Longrightarrow> slice_str w i (i + width) = take (nat width) (drop (nat i) w)"
  unfolding slice_str_def Let_def
  by (cases "i \<le> int (length w)") (auto simp: min_def nat_diff_distrib' nat_add_distrib)

lemma chunk_loop_hard_split:
  "0 < width \<Longrightarrow> 0 \<le> i \<Longrightarrow>
   chunk_loop w width i result = Some (result @ hard_split (nat width) (drop (nat i) w))"
proof (induction "length w - nat i" arbitrary: i result rule: less_induct)
  case less
  show ?case
  proof (cases "i < int (length w)")
    case True
    have step: "chunk_loop w width i result =
        chunk_loop w width (i + width) (result @ [slice_str w i (i + width)])"
      using True by (subst chunk_loop.simps) simp
    have dec: "length w - nat (i + width) < length w - nat i"
      using True less.prems by linarith
    have nonempty: "drop (nat i) w \<noteq> []" using True less.prems by simp
    have "chunk_loop w width (i + width) (result @ [slice_str w i (i + width)]) =
        Some ((result @ [slice_str w i (i + width)]) @ hard_split (nat width) (drop (nat (i + width)) w))"
      using less.hyps[OF dec] less.prems by simp
    moreover have "drop (nat (i + width)) w = drop (nat width) (drop (nat i) w)"
      using less.prems by (simp add: nat_add_distrib add.commute)
    moreover have "hard_split (nat width) (drop (nat i) w) =
        take (nat width) (drop (nat i) w) # hard_split (nat width) (drop (nat width) (drop (nat i) w))"
      using nonempty less.prems by (subst hard_split.simps) simp
    ultimately show ?thesis
      using step slice_str_window[OF less.prems(2) less.prems(1)] by simp
  next
    case False
    then have "drop (nat i) w = []" by simp
    then show ?thesis using False by (subst chunk_loop.simps) (simp add: hard_split.simps)
  qed
qed

lemma concat_hard_split: "0 < n \<Longrightarrow> concat (hard_split n xs) = xs"
proof (induction n xs rule: hard_split.induct)
  case (1 n xs)
  then show ?case by (subst hard_split.simps) auto
qed

lemma hard_split_length_le: "ys \<in> set (hard_split n xs) \<Longrightarrow> length ys \<le> n"
proof (induction n xs rule: hard_split.induct)
  case (1 n xs)
  from "1.prems" show ?case
    by (subst (asm) hard_split.simps) (auto split: if_splits dest: "1.IH"[rotated])
qed

lemma hard_split_nonempty: "ys \<in> set (hard_split n xs) \<Longrightarrow> ys \<noteq> []"
proof (induction n xs rule: hard_split.induct)
  case (1 n xs)
  show ?case
  proof (cases "xs = [] \<or> n = 0")
    case True
    then show ?thesis using "1.prems" by (simp add: hard_split.simps)
  next
    case False
    then have "ys = take n xs \<or> ys \<in> set (hard_split n (drop n xs))"
      using "1.prems" by (subst (asm) hard_split.simps) simp
    then show ?thesis using "1.IH"[OF False] False by auto
  qed
qed

lemma length_hard_split: "0 < n \<Longrightarrow> length (hard_split n xs) = (length xs + n - 1) div n"
proof (induction n xs rule: hard_split.induct)
  case (1 n xs)
  show ?case
  proof (cases "xs = []")
    case True
    then show ?thesis using "1.prems" by (subst hard_split.simps) simp
  next
    case False
    have ih: "length (hard_split n (drop n xs)) = (length (drop n xs) + n - 1) div n"
      using "1.IH" False "1.prems" by simp
    show ?thesis
    proof (cases "length xs \<le> n")
      case True
      then have "(length xs + n - 1) div n = 1"
        using False "1.prems" by (cases xs) (auto simp: div_eq_dividend_iff Suc_le_eq intro!: div_nat_eqI)
      then show ?thesis using True ih False "1.prems"
        by (subst hard_split.simps) simp
    next
      case gt: False
      then have "length xs + n - 1 = (length xs - n + n - 1) + n" by simp
      then have "(length xs + n - 1) div n = Suc ((length xs - n + n - 1) div n)"
        using "1.prems" by (metis div_add_self2 Suc_eq_plus1 less_numeral_extra(3))
      then show ?thesis using ih False "1.prems"
        by (subst hard_split.simps) simp
    qed
  qed
qed

lemma hard_split_full:
  "Suc k < length (hard_split n xs) \<Longrightarrow> length (hard_split n xs ! k) = n"
proof (induction n xs arbitrary: k rule: hard_split.induct)
  case (1 n xs)
  have ne: "xs \<noteq> []" "n \<noteq> 0"
    using "1.prems" by (auto simp: hard_split.simps[of n xs] split: if_splits)
  have unf: "hard_split n xs = take n xs # hard_split n (drop n xs)"
    using ne by (subst hard_split.simps) simp
  have tl_ne: "hard_split n (drop n xs) \<noteq> []" using "1.prems" unf by auto
  then have "drop n xs \<noteq> []" by (auto simp: hard_split.simps)
  then have long: "n < length xs" by simp
  show ?case
  proof (cases k)
    case 0
    then show ?thesis using unf long by simp
  next
    case (Suc j)
    then have "Suc j < length (hard_split n (drop n xs))" using "1.prems" unf by simp
    then show ?thesis using "1.IH" ne Suc unf by simp
  qed
qed

lemma hard_split_last:
  "xs \<noteq> [] \<Longrightarrow> 0 < n \<Longrightarrow> last (hard_split n xs) \<noteq> [] \<and> length (last (hard_split n xs)) \<le> n"
proof -
  assume a: "xs \<noteq> []" "0 < n"
  then have "hard_split n xs \<noteq> []" by (subst hard_split.simps) simp
  then have "last (hard_split n xs) \<in> set (hard_split n xs)" by simp
  then show ?thesis using hard_split_length_le hard_split_nonempty by blast
qed

text \<open>
  The whitespace-separated tokens of a string (what is left after collapsing
  whitespace), for the reconstruction property of the wrapper.
\<close>

fun split_by :: "('a \<Rightarrow> bool) \<Rightarrow> 'a list \<Rightarrow> 'a list list" where
  "split_by P [] = [[]]"
| "split_by P (c # cs) =
     (if P c then [] # split_by P cs
      else (case split_by P cs of [] \<Rightarrow> [[c]] | p # ps \<Rightarrow> (c # p) # ps))"

definition ws_tokens :: "jsstring \<Rightarrow> jsstring list" where
  "ws_tokens s = filter (\<lambda>t. t \<noteq> []) (split_by isSpace s)"

lemma wrap_words_long:
  assumes "0 < width" "width < int (length w)"
  shows "wrap_words width (w # ws) (result, current) =
         wrap_words width ws (flush result current @ hard_split (nat width) w, [])"
  using assms chunk_loop_hard_split[of width 0 w "flush result current"] by simp

lemma wrap_words_inv:
  assumes "0 < width"
  shows "\<forall>l\<in>set result. l \<noteq> [] \<and> int (length l) \<le> width \<Longrightarrow> int (length current) \<le> width \<Longrightarrow>
     \<exists>r c. wrap_words width ws (result, current) = Some (r, c) \<and>
       (\<forall>l\<in>set r. l \<noteq> [] \<and> int (length l) \<le> width) \<and> int (length c) \<le> width"
proof (induction ws arbitrary: result current)
  case Nil
  then show ?case by simp
next
  case (Cons w ws)
  have fl: "\<forall>l\<in>set (flush result current). l \<noteq> [] \<and> int (length l) \<le> width"
    using Cons.prems by (auto simp: flush_def)
  show ?case
  proof (cases "width < int (length w)")
    case True
    have "\<forall>l\<in>set (flush result current @ hard_split (nat width) w). l \<noteq> [] \<and> int (length l) \<le> width"
      using fl hard_split_nonempty[of _ "nat width" w] hard_split_length_le[of _ "nat width" w] assms
      by fastforce
    from Cons.IH[OF this, of "[]"] show ?thesis
      using wrap_words_long[OF assms True] assms by simp
  next
    case short: False
    show ?thesis
    proof (cases "int (length current) + int (length w) + 1 \<le> width")
      case True
      have "int (length (current @ (if current \<noteq> [] then [chSpace] else []) @ w)) \<le> width"
        using True by simp
      from Cons.IH[OF Cons.prems(1) this] show ?thesis using short True by simp
    next
      case False
      have "int (length w) \<le> width" using short by simp
      from Cons.IH[OF fl this] show ?thesis using short False by simp
    qed
  qed
qed

lemma wrapLine_inv:
  assumes "0 < width"
  shows "\<exists>r. wrapLine line width = Some r \<and> (\<forall>l\<in>set r. l \<noteq> [] \<and> int (length l) \<le> width)"
proof -
  obtain r c where rc: "wrap_words width (split_on chSpace line) ([], []) = Some (r, c)"
    "\<forall>l\<in>set r. l \<noteq> [] \<and> int (length l) \<le> width" "int (length c) \<le> width"
    using wrap_words_inv[OF assms, of "[]" "[]" "split_on chSpace line"] assms by auto
  then show ?thesis by (auto simp: wrapLine_def flush_def)
qed

lemma split_on_no_sep: "sep \<notin> set w \<Longrightarrow> split_on sep w = [w]"
  by (induction w) auto

lemma wrapLine_single_long:
  assumes "0 < width" "width < int (length w)" "chSpace \<notin> set w"
  shows "wrapLine w width = Some (hard_split (nat width) w)"
  using assms wrap_words_long[OF assms(1,2), of "[]" "[]" "[]"]
  by (simp add: wrapLine_def split_on_no_sep flush_def del: wrap_words.simps(2))

text \<open>
  Claim C4. For every line and every integer width \<open>> 0\<close>, \<open>wrapLine\<close> returns, and every
  returned line has length \<open>\<le> width\<close>. A token longer than \<open>width\<close> flushes the accumulated
  line and is then hard-split: the loop continues with the chunks appended and an empty
  current line; the chunks concatenate to the token, there are
  \<open>ceil(length / width)\<close> of them, every chunk but the last has length exactly \<open>width\<close>, the
  last one is non-empty and at most \<open>width\<close> long; a line that is one such token wraps to
  exactly its chunks. The empty line produces the empty sequence.
\<close>

theorem wrapLine_width:
  assumes "0 < width"
  shows "(\<exists>r. wrapLine line width = Some r \<and> (\<forall>l\<in>set r. int (length l) \<le> width))
    \<and> (width < int (length w) \<longrightarrow>
          wrap_words width (w # ws) (result, current) =
            wrap_words width ws (flush result current @ hard_split (nat width) w, [])
        \<and> (chSpace \<notin> set w \<longrightarrow> wrapLine w width = Some (hard_split (nat width) w))
        \<and> concat (hard_split (nat width) w) = w
        \<and> length (hard_split (nat width) w) = (length w + nat width - 1) div nat width
        \<and> (\<forall>k. Suc k < length (hard_split (nat width) w) \<longrightarrow> length (hard_split (nat width) w ! k) = nat width)
        \<and> last (hard_split (nat width) w) \<noteq> []
        \<and> length (last (hard_split (nat width) w)) \<le> nat width)
    \<and> wrapLine [] width = Some []"
proof (intro conjI impI allI)
  show "\<exists>r. wrapLine line width = Some r \<and> (\<forall>l\<in>set r. int (length l) \<le> width)"
    using wrapLine_inv[OF assms, of line] by auto
  show "wrapLine [] width = Some []"
    using assms by (simp add: wrapLine_def flush_def)
next
  assume long: "width < int (length w)"
  then have ne: "w \<noteq> []" using assms by auto
  show "wrap_words width (w # ws) (result, current) =
            wrap_words width ws (flush result current @ hard_split (nat width) w, [])"
    by (rule wrap_words_long[OF assms long])
  show "concat (hard_split (nat width) w) = w" using assms by (simp add: concat_hard_split)
  show "length (hard_split (nat width) w) = (length w + nat width - 1) div nat width"
    using assms by (simp add: length_hard_split)
  show "last (hard_split (nat width) w) \<noteq> []" using hard_split_last[OF ne, of "nat width"] assms by simp
  show "length (last (hard_split (nat width) w)) \<le> nat width"
    using hard_split_last[OF ne, of "nat width"] assms by simp
  show "wrapLine w width = Some (hard_split (nat width) w)" if "chSpace \<notin> set w"
    by (rule wrapLine_single_long[OF assms long that])
  show "length (hard_split (nat width) w ! k) = nat width" if "Suc k < length (hard_split (nat width) w)" for k
    by (rule hard_split_full[OF that])
qed

lemmas js_simps = js_def chSpace_def chNewline_def chHash_def

theorem wrapLine_width_witness:
  "wrapLine (js ''ab cdefgh'') 3 = Some [js ''ab'', js ''cde'', js ''fgh'']
   \<and> wrap_words 3 [js ''cdefgh''] ([], js ''ab'') = Some ([js ''ab'', js ''cde'', js ''fgh''], [])
   \<and> wrapLine (js ''cdefgh'') 3 = Some [js ''cde'', js ''fgh'']
   \<and> length (hard_split 3 (js ''cdefgh'')) = 2
   \<and> wrapLine [] 3 = Some []"
  using wrapLine_width[of 3 "js ''ab cdefgh''" "js ''cdefgh''" "[]" "[]" "js ''ab''"]
  by (simp add: js_simps wrapLine_def flush_def hard_split.simps)

text \<open>
  Claim C10. For every line and every integer width \<open>\<ge> 1\<close>, \<open>wrapLine\<close> returns and no
  returned line is the empty string.
\<close>

theorem wrapLine_nonempty:
  "1 \<le> width \<Longrightarrow> \<exists>r. wrapLine line width = Some r \<and> (\<forall>l\<in>set r. l \<noteq> [])"
  using wrapLine_inv[of width line] by auto

theorem wrapLine_nonempty_witness:
  "1 \<le> (1::int) \<and> wrapLine (js ''a  bc'') 1 = Some [js ''a'', js ''b'', js ''c'']"
  using wrapLine_nonempty[of 1 "js ''a  bc''"]
  by (simp add: js_simps wrapLine_def flush_def chunk_loop.simps slice_str_def)

subsection \<open>The line wrapper: reconstruction of the tokens\<close>

lemma split_by_nonempty [simp]: "split_by P s \<noteq> []"
  by (induction s) (auto split: list.splits)

lemma split_by_sep:
  "P c \<Longrightarrow> split_by P (a @ c # b) = split_by P a @ split_by P b"
  by (induction a) (auto split: list.splits)

lemma ws_tokens_Nil [simp]: "ws_tokens [] = []"
  by (simp add: ws_tokens_def)

lemma ws_tokens_sep:
  "isSpace c \<Longrightarrow> ws_tokens (a @ c # b) = ws_tokens a @ ws_tokens b"
  by (simp add: ws_tokens_def split_by_sep)

lemma ws_tokens_join:
  "isSpace c \<Longrightarrow> ws_tokens (join [c] xs) = concat (map ws_tokens xs)"
  by (induction "[c]" xs rule: join.induct) (simp_all add: ws_tokens_sep)

lemma split_on_nonempty [simp]: "split_on sep s \<noteq> []"
  by (induction s) (auto split: list.splits)

lemma join_split_on: "join [sep] (split_on sep s) = s"
proof (induction s)
  case Nil
  then show ?case by simp
next
  case (Cons c cs)
  obtain p ps where ps: "split_on sep cs = p # ps"
    by (cases "split_on sep cs") auto
  show ?case
  proof (cases "c = sep")
    case True
    then show ?thesis using Cons ps by simp
  next
    case False
    then show ?thesis using Cons ps by (cases ps) auto
  qed
qed

lemma isSpace_chSpace [simp]: "isSpace chSpace"
  by (simp add: isSpace_def chSpace_def)

lemma tokens_flush:
  "concat (map ws_tokens (flush result current)) = concat (map ws_tokens result) @ ws_tokens current"
  by (simp add: flush_def)

lemma wrap_words_tokens:
  "\<forall>w\<in>set ws. int (length w) \<le> width \<Longrightarrow>
   \<exists>r c. wrap_words width ws (result, current) = Some (r, c) \<and>
     concat (map ws_tokens r) @ ws_tokens c =
       concat (map ws_tokens result) @ ws_tokens current @ concat (map ws_tokens ws)"
proof (induction ws arbitrary: result current)
  case Nil
  then show ?case by simp
next
  case (Cons w ws)
  have short: "\<not> width < int (length w)" and rest: "\<forall>w\<in>set ws. int (length w) \<le> width"
    using Cons.prems by auto
  show ?case
  proof (cases "int (length current) + int (length w) + 1 \<le> width")
    case True
    have "ws_tokens (current @ (if current \<noteq> [] then [chSpace] else []) @ w) =
          ws_tokens current @ ws_tokens w"
      by (simp add: ws_tokens_sep)
    then show ?thesis
      using Cons.IH[OF rest, of result "current @ (if current \<noteq> [] then [chSpace] else []) @ w"]
        short True by simp
  next
    case False
    show ?thesis
      using Cons.IH[OF rest, of "flush result current" w] short False
      by (simp add: tokens_flush)
  qed
qed

text \<open>
  Claim C5, amended. For every line and every integer width \<open>> 0\<close> such that no
  space-separated token of the line is longer than \<open>width\<close>, joining the lines returned by
  \<open>wrapLine\<close> with single spaces and collapsing whitespace gives exactly the
  whitespace-separated tokens of the original line, in their order.
\<close>

theorem wrapLine_tokens:
  assumes "0 < width" "\<forall>w\<in>set (split_on chSpace line). int (length w) \<le> width"
  shows "\<exists>r. wrapLine line width = Some r \<and> ws_tokens (join [chSpace] r) = ws_tokens line"
proof -
  obtain r c where rc: "wrap_words width (split_on chSpace line) ([], []) = Some (r, c)"
    and tk: "concat (map ws_tokens r) @ ws_tokens c =
       concat (map ws_tokens (split_on chSpace line))"
    using wrap_words_tokens[OF assms(2), of "[]" "[]"] by auto
  have "ws_tokens (join [chSpace] (flush r c)) = concat (map ws_tokens (flush r c))"
    by (simp add: ws_tokens_join)
  also have "\<dots> = concat (map ws_tokens (split_on chSpace line))"
    using tk by (simp add: tokens_flush)
  also have "\<dots> = ws_tokens (join [chSpace] (split_on chSpace line))"
    by (simp add: ws_tokens_join)
  also have "\<dots> = ws_tokens line" by (simp add: join_split_on)
  finally show ?thesis using rc by (simp add: wrapLine_def)
qed

theorem wrapLine_tokens_witness:
  "wrapLine (js ''ab  cd e'') 4 = Some [js ''ab '', js ''cd e'']
   \<and> ws_tokens (join [chSpace] [js ''ab '', js ''cd e'']) = [js ''ab'', js ''cd'', js ''e'']
   \<and> ws_tokens (js ''ab  cd e'') = [js ''ab'', js ''cd'', js ''e'']"
  using wrapLine_tokens[of 4 "js ''ab  cd e''"]
  by (simp add: js_simps wrapLine_def flush_def ws_tokens_def isSpace_def isLineTerminator_def)

text \<open>
  Claim C5 as stated fails where a token is hard-split: \<open>abcdef\<close> at width 3 wraps to
  \<open>abc\<close>, \<open>def\<close>, whose tokens are two, while the line has the single token \<open>abcdef\<close>.
\<close>

theorem wrapLine_tokens_counterexample:
  "wrapLine (js ''abcdef'') 3 = Some [js ''abc'', js ''def'']
   \<and> ws_tokens (join [chSpace] [js ''abc'', js ''def'']) = [js ''abc'', js ''def'']
   \<and> ws_tokens (js ''abcdef'') = [js ''abcdef'']"
  by (simp add: js_simps wrapLine_def flush_def ws_tokens_def isSpace_def isLineTerminator_def
      chunk_loop.simps slice_str_def)

subsection \<open>The document parser\<close>

text \<open>
  A page object: \<open>type\<close> is \<open>"title"\<close> or \<open>"page"\<close>; a title page is built without the
  \<open>subtitle\<close> property, a content page with \<open>subtitle\<close> a string or \<open>null\<close>.
\<close>

datatype page_type = TitlePage | ContentPage

record page =
  ptype :: page_type
  title :: jsstring
  subtitle :: "jsstring option"
  content :: jsstring

text \<open>
  The tail \<^verbatim>\<open>\s+(.+)$\<close> of the heading patterns, matched at the start of \<open>t\<close>; the
  result is the text of group 1. The greedy \<^verbatim>\<open>\s+\<close> first takes the whole leading run of
  whitespace; \<^verbatim>\<open>(.+)$\<close> must then match the non-empty rest up to the end of the string,
  which it does iff the rest has no line terminator. Backtracking gives whitespace back
  to the group: when the rest is not empty the group would still hold the same line
  terminator, so only the case of a string of whitespace alone is left, where the first
  retry (the group is the last character) is the only one that can succeed.
\<close>

definition ws_then_text :: "jsstring \<Rightarrow> jsstring option" where
  "ws_then_text t =
     (let ws = takeWhile isSpace t; rest = dropWhile isSpace t in
      if ws = [] then None
      else if rest \<noteq> [] then (if list_ex isLineTerminator rest then None else Some rest)
      else if 2 \<le> length ws \<and> \<not> isLineTerminator (last ws) then Some [last ws]
      else None)"

text \<open>
  \<^verbatim>\<open>/^#\s+(.+)$/\<close>, \<^verbatim>\<open>/^##\s+(.+)$/\<close> and \<^verbatim>\<open>/^###\s+(.+)$/\<close> are \<open>heading_capture n\<close> for
  \<open>n = 1, 2, 3\<close> (no \<open>m\<close> flag: \<open>^\<close> and \<open>$\<close> are the ends of the line string).
\<close>

definition heading_capture :: "nat \<Rightarrow> jsstring \<Rightarrow> jsstring option" where
  "heading_capture n line =
     (if take n line = replicate n chHash then ws_then_text (drop n line) else None)"

text \<open>\<^verbatim>\<open>/^#{1,3}\s/\<close>: one to three \<open>#\<close>, then a whitespace character.\<close>

definition is_heading_start :: "jsstring \<Rightarrow> bool" where
  "is_heading_start line =
     (let n = length (takeWhile (\<lambda>c. c = chHash) line) in
      1 \<le> n \<and> n \<le> 3 \<and> (case drop n line of [] \<Rightarrow> False | c # _ \<Rightarrow> isSpace c))"

text \<open>\<^verbatim>\<open>/^##\s+/\<close>.\<close>

definition h2Next :: "jsstring \<Rightarrow> bool" where
  "h2Next l =
     (take 2 l = [chHash, chHash] \<and> (case drop 2 l of [] \<Rightarrow> False | c # _ \<Rightarrow> isSpace c))"

text \<open>
  \<^verbatim>\<open>s.replace(/^###\s+[^\n]+\n?/, "")\<close>: the pattern can match at the start of the string
  only. \<^verbatim>\<open>\s+\<close> takes \<open>k\<close> characters of the leading whitespace run, the longest choice
  first, and \<^verbatim>\<open>[^\n]+\<close> needs a character other than a newline right after them; it then
  runs to the next newline, which \<^verbatim>\<open>\n?\<close> takes as well.
\<close>

definition strip_h3_line :: "jsstring \<Rightarrow> jsstring" where
  "strip_h3_line s =
     (if take 3 s = [chHash, chHash, chHash] then
        (let t = drop 3 s; n = length (takeWhile isSpace t) in
         case find (\<lambda>k. k < length t \<and> t ! k \<noteq> chNewline) (rev [1..<Suc n]) of
           None \<Rightarrow> s
         | Some k \<Rightarrow> drop 1 (dropWhile (\<lambda>c. c \<noteq> chNewline) (drop k t)))
      else s)"

text \<open>An entry of \<open>subPages\<close>.\<close>

record subpage =
  sp_subtitle :: "jsstring option"
  sp_content :: jsstring

text \<open>
  The block the source repeats three times (at a second-level heading, at a third-level
  heading and after the loop):
  \<^verbatim>\<open>if (currentContent.length > 0) { const trimmed = currentContent.join("\n").trim();
    if (trimmed) { ... subPages.push({subtitle: h3Match ? h3Match[1].trim() : null,
    content: trimmed}) } }\<close>
\<close>

definition push_block :: "subpage list \<Rightarrow> jsstring list \<Rightarrow> subpage list" where
  "push_block subPages currentContent =
     (if currentContent \<noteq> [] then
        (let trimmed = trim (join [chNewline] currentContent) in
         if trimmed \<noteq> [] then
           subPages @ [\<lparr>sp_subtitle = map_option trim (heading_capture 3 (hd currentContent)),
                         sp_content = trimmed\<rparr>]
         else subPages)
      else subPages)"

text \<open>
  The inner \<open>while\<close> loop over the lines after a second-level heading. It returns
  \<open>subPages\<close>, \<open>currentContent\<close>, \<open>brokeDueToH2\<close> and the lines from index \<open>i\<close> on.
\<close>

fun section_loop ::
  "jsstring list \<Rightarrow> jsstring list \<Rightarrow> subpage list \<Rightarrow>
     subpage list \<times> jsstring list \<times> bool \<times> jsstring list" where
  "section_loop [] currentContent subPages = (subPages, currentContent, False, [])"
| "section_loop (l # ls) currentContent subPages =
     (if h2Next l then (push_block subPages currentContent, currentContent, True, l # ls)
      else if heading_capture 3 l \<noteq> None then
        section_loop ls [l] (push_block subPages currentContent)
      else section_loop ls (currentContent @ [l]) subPages)"

text \<open>The inner loop from its initial state, and the block after it.\<close>

definition collect_section :: "jsstring list \<Rightarrow> subpage list \<times> jsstring list" where
  "collect_section ls =
     (case section_loop ls [] [] of
        (subPages, currentContent, brokeDueToH2, rest) \<Rightarrow>
          (if \<not> brokeDueToH2 \<and> currentContent \<noteq> []
           then push_block subPages currentContent else subPages, rest))"

text \<open>\<open>sp.subtitle ? ... : ...\<close>: \<open>null\<close> and the empty string are falsy.\<close>

definition truthy :: "jsstring option \<Rightarrow> bool" where
  "truthy v = (case v of None \<Rightarrow> False | Some s \<Rightarrow> s \<noteq> [])"

definition section_pages :: "jsstring \<Rightarrow> subpage list \<Rightarrow> page list" where
  "section_pages pageTitle subPages =
     (if subPages = [] then
        [\<lparr>ptype = ContentPage, title = pageTitle, subtitle = None, content = []\<rparr>]
      else
        map (\<lambda>sp. \<lparr>ptype = ContentPage, title = pageTitle, subtitle = sp_subtitle sp,
                   content = (if truthy (sp_subtitle sp)
                              then trim (strip_h3_line (sp_content sp))
                              else sp_content sp)\<rparr>) subPages)"

text \<open>The inner loop only moves forward, so the outer loop terminates.\<close>

lemma section_loop_rest: "length (snd (snd (snd (section_loop ls cur sps)))) \<le> length ls"
  by (induction ls arbitrary: cur sps) (auto simp: le_SucI)

lemma collect_section_rest: "length (snd (collect_section ls)) \<le> length ls"
  using section_loop_rest[of ls "[]" "[]"]
  by (auto simp: collect_section_def split: prod.splits)

text \<open>
  The second outer loop, from index \<open>i\<close> on; the pages it pushes, in order.
\<close>

function scan_h2 :: "jsstring list \<Rightarrow> page list" where
  "scan_h2 [] = []"
| "scan_h2 (line # rest) =
     (case heading_capture 2 line of
        Some h2 \<Rightarrow>
          section_pages (trim h2) (fst (collect_section rest)) @ scan_h2 (snd (collect_section rest))
      | None \<Rightarrow> scan_h2 rest)"
  by pat_completeness auto
termination
  by (relation "measure length") (auto simp: collect_section_rest less_Suc_eq_le)

text \<open>
  The first outer loop: the pages it pushes and the lines from index \<open>i\<close> on when it
  ends. When no line is a top-level heading it ends with \<open>i = lines.length\<close>, and \<open>i\<close>
  is not reset before the second loop.
\<close>

fun title_scan :: "jsstring list \<Rightarrow> page list \<times> jsstring list" where
  "title_scan [] = ([], [])"
| "title_scan (line # rest) =
     (case heading_capture 1 line of
        Some h1 \<Rightarrow>
          ([\<lparr>ptype = TitlePage, title = trim h1, subtitle = None,
             content = trim (join [chNewline] (takeWhile (\<lambda>l. \<not> is_heading_start l) rest))\<rparr>],
           dropWhile (\<lambda>l. \<not> is_heading_start l) rest)
      | None \<Rightarrow> title_scan rest)"

definition parse_lines :: "jsstring list \<Rightarrow> page list" where
  "parse_lines lines = (case title_scan lines of (pages, rest) \<Rightarrow> pages @ scan_h2 rest)"

definition parseMarkdown :: "jsstring \<Rightarrow> page list" where
  "parseMarkdown md = parse_lines (split_on chNewline md)"

subsection \<open>The document parser: sections and sub-pages\<close>

text \<open>
  The sub-blocks of a section as the specification describes them: every third-level
  heading of the section starts a block that runs to the next third-level heading (or
  to the end of the section).
\<close>

fun h3_blocks :: "jsstring list \<Rightarrow> (jsstring \<times> jsstring list) list" where
  "h3_blocks [] = []"
| "h3_blocks (l # ls) =
     (if heading_capture 3 l \<noteq> None
      then (l, takeWhile (\<lambda>x. heading_capture 3 x = None) ls) # h3_blocks ls
      else h3_blocks ls)"

text \<open>
  The pages of a section in the specification's words, with the one change the code
  forces: the text before the first third-level heading, when it is not blank, is a page
  without subtitle; every third-level heading gives a page with the heading's text as
  subtitle and the trimmed lines below the heading as content (also when they are
  blank); a section that gives no page this way is represented by one page with empty
  content and no subtitle.
\<close>

definition spec_section_pages :: "jsstring \<Rightarrow> jsstring list \<Rightarrow> page list" where
  "spec_section_pages ttl body =
     (let lead = trim (join [chNewline] (takeWhile (\<lambda>x. heading_capture 3 x = None) body));
          pages =
            (if lead \<noteq> [] then
               [\<lparr>ptype = ContentPage, title = ttl, subtitle = None, content = lead\<rparr>]
             else []) @
            map (\<lambda>(h, b). \<lparr>ptype = ContentPage, title = ttl,
                            subtitle = map_option trim (heading_capture 3 h),
                            content = trim (join [chNewline] b)\<rparr>) (h3_blocks body)
      in if pages = [] then
           [\<lparr>ptype = ContentPage, title = ttl, subtitle = None, content = []\<rparr>]
         else pages)"

text \<open>The inner loop against the blocks of the specification.\<close>

lemma push_block_Nil [simp]: "push_block sps [] = sps"
  by (simp add: push_block_def)

lemma push_block_append: "push_block sps cur = sps @ push_block [] cur"
  by (simp add: push_block_def Let_def)

definition final_blocks :: "subpage list \<times> jsstring list \<times> bool \<times> jsstring list \<Rightarrow> subpage list" where
  "final_blocks r = (case r of (sps, cur, broke, rest) \<Rightarrow>
      if \<not> broke \<and> cur \<noteq> [] then push_block sps cur else sps)"

lemma collect_section_alt:
  "collect_section ls = (final_blocks (section_loop ls [] []), snd (snd (snd (section_loop ls [] []))))"
  by (simp add: collect_section_def final_blocks_def split: prod.splits)

lemma section_loop_blocks:
  assumes "\<forall>x\<in>set body. \<not> h2Next x" "post = [] \<or> h2Next (hd post)"
  shows "final_blocks (section_loop (body @ post) cur sps) =
           sps @ push_block [] (cur @ takeWhile (\<lambda>x. heading_capture 3 x = None) body)
               @ concat (map (\<lambda>(h, b). push_block [] (h # b)) (h3_blocks body))
         \<and> snd (snd (snd (section_loop (body @ post) cur sps))) = post"
  using assms(1)
proof (induction body arbitrary: cur sps)
  case Nil
  show ?case
  proof (cases post)
    case Nil
    then show ?thesis by (simp add: final_blocks_def push_block_append[of sps cur])
  next
    case (Cons p ps)
    then have "h2Next p" using assms(2) by simp
    then show ?thesis using Cons by (simp add: final_blocks_def push_block_append[of sps cur])
  qed
next
  case (Cons l ls)
  then have nl: "\<not> h2Next l" and rest: "\<forall>x\<in>set ls. \<not> h2Next x" by auto
  show ?case
  proof (cases "heading_capture 3 l = None")
    case True
    then show ?thesis using nl Cons.IH[OF rest, of "cur @ [l]" sps] by simp
  next
    case False
    then show ?thesis
      using nl Cons.IH[OF rest, of "[l]" "push_block sps cur"]
      by (auto simp: push_block_append[of sps cur])
  qed
qed

lemma collect_section_blocks:
  assumes "\<forall>x\<in>set body. \<not> h2Next x" "post = [] \<or> h2Next (hd post)"
  shows "collect_section (body @ post) =
           (push_block [] (takeWhile (\<lambda>x. heading_capture 3 x = None) body)
               @ concat (map (\<lambda>(h, b). push_block [] (h # b)) (h3_blocks body)), post)"
  using section_loop_blocks[OF assms, of "[]" "[]"] by (simp add: collect_section_alt)

text \<open>
  A second-level heading ends the title block and the section before it, so the pages
  of a document are the pages of what precedes the heading followed by the pages of
  what starts at it.
\<close>

lemma not_isSpace_chHash [simp]: "\<not> isSpace chHash"
  by (simp add: isSpace_def isLineTerminator_def chHash_def)

lemma isSpace_chNewline [simp]: "isSpace chNewline"
  by (simp add: isSpace_def isLineTerminator_def chNewline_def)

lemma ws_then_text_form:
  "ws_then_text t = Some c \<Longrightarrow> \<exists>x xs. t = x # xs \<and> isSpace x"
  by (cases t) (auto simp: ws_then_text_def Let_def split: if_splits)

lemma h2_form:
  assumes "heading_capture 2 l = Some c"
  shows "\<exists>x xs. l = chHash # chHash # x # xs \<and> isSpace x"
proof -
  have tk: "take 2 l = [chHash, chHash]" and ws: "ws_then_text (drop 2 l) = Some c"
    using assms by (auto simp: heading_capture_def eval_nat_numeral split: if_splits)
  obtain x xs where d: "drop 2 l = x # xs" "isSpace x"
    using ws_then_text_form[OF ws] by auto
  have "l = take 2 l @ drop 2 l" by simp
  then show ?thesis using tk d by (metis append_Cons append_Nil)
qed

lemma h2_is_h2Next: "heading_capture 2 l = Some c \<Longrightarrow> h2Next l"
  using h2_form[of l c] by (auto simp: h2Next_def)

lemma h2_is_heading_start: "heading_capture 2 l = Some c \<Longrightarrow> is_heading_start l"
proof -
  assume "heading_capture 2 l = Some c"
  then obtain x xs where l: "l = chHash # chHash # x # xs" "isSpace x"
    using h2_form by blast
  then have "x \<noteq> chHash" using not_isSpace_chHash by auto
  then show ?thesis using l by (simp add: is_heading_start_def)
qed

lemma takeWhile_stop:
  "\<not> P l \<Longrightarrow> takeWhile P (xs @ l # r) = takeWhile P xs"
  by (induction xs) auto

lemma dropWhile_stop:
  "\<not> P l \<Longrightarrow> dropWhile P (xs @ l # r) = dropWhile P xs @ l # r"
  by (induction xs) auto

lemma title_scan_append:
  assumes "\<exists>x\<in>set pre. heading_capture 1 x \<noteq> None" "is_heading_start l"
  shows "title_scan (pre @ l # r) = (fst (title_scan pre), snd (title_scan pre) @ l # r)"
  using assms(1)
proof (induction pre)
  case Nil
  then show ?case by simp
next
  case (Cons x xs)
  show ?case
  proof (cases "heading_capture 1 x")
    case None
    then show ?thesis using Cons by simp
  next
    case (Some c)
    then show ?thesis
      using assms(2) by (simp add: takeWhile_stop dropWhile_stop)
  qed
qed

lemma section_loop_append:
  assumes "h2Next l"
  shows "final_blocks (section_loop (xs @ l # r) cur sps) = final_blocks (section_loop xs cur sps)
       \<and> snd (snd (snd (section_loop (xs @ l # r) cur sps))) =
           snd (snd (snd (section_loop xs cur sps))) @ l # r"
proof (induction xs arbitrary: cur sps)
  case Nil
  then show ?case using assms by (simp add: final_blocks_def push_block_append[of sps cur])
next
  case (Cons x xs)
  then show ?case by (simp add: final_blocks_def)
qed

lemma collect_section_append:
  assumes "h2Next l"
  shows "collect_section (xs @ l # r) = (fst (collect_section xs), snd (collect_section xs) @ l # r)"
  using section_loop_append[OF assms, of xs r "[]" "[]"] by (simp add: collect_section_alt)

lemma scan_h2_append:
  assumes "h2Next l"
  shows "scan_h2 (a @ l # r) = scan_h2 a @ scan_h2 (l # r)"
proof (induction a rule: scan_h2.induct)
  case 1
  then show ?case by simp
next
  case (2 line rest)
  show ?case
  proof (cases "heading_capture 2 line")
    case None
    then show ?thesis using "2.IH"(1)[OF None] by simp
  next
    case (Some c)
    then show ?thesis
      using "2.IH"(2)[OF Some] collect_section_append[OF assms, of rest r] by simp
  qed
qed

lemma parse_lines_append:
  assumes "\<exists>x\<in>set pre. heading_capture 1 x \<noteq> None" "heading_capture 2 l = Some c"
  shows "parse_lines (pre @ l # r) = parse_lines pre @ scan_h2 (l # r)"
  using title_scan_append[OF assms(1) h2_is_heading_start[OF assms(2)], of r]
    scan_h2_append[OF h2_is_h2Next[OF assms(2)]]
  by (simp add: parse_lines_def split: prod.splits)

lemma title_scan_no_h1:
  "\<forall>l\<in>set ls. heading_capture 1 l = None \<Longrightarrow> title_scan ls = ([], [])"
  by (induction ls) auto

text \<open>
  Without a top-level heading the first loop runs to the end of the document, and the
  second loop starts there: no page at all is produced.
\<close>

lemma parseMarkdown_no_h1:
  "\<forall>l\<in>set (split_on chNewline md). heading_capture 1 l = None \<Longrightarrow> parseMarkdown md = []"
  by (simp add: parseMarkdown_def parse_lines_def title_scan_no_h1)

text \<open>Trimming, and the removal of the heading line from a sub-page's content.\<close>

lemma dropWhile_all: "\<forall>x\<in>set xs. P x \<Longrightarrow> dropWhile P (xs @ ys) = dropWhile P ys"
  by (induction xs) auto

lemma dropWhile_some: "\<exists>x\<in>set xs. \<not> P x \<Longrightarrow> dropWhile P (xs @ ys) = dropWhile P xs @ ys"
  by (induction xs) auto

lemma trimEnd_append_spaces: "\<forall>x\<in>set sp. isSpace x \<Longrightarrow> trimEnd (a @ sp) = trimEnd a"
  by (simp add: trimEnd_def dropWhile_all)

lemma trimEnd_decomp: "\<exists>sp. s = trimEnd s @ sp \<and> (\<forall>x\<in>set sp. isSpace x)"
proof -
  have "rev s = takeWhile isSpace (rev s) @ dropWhile isSpace (rev s)" by simp
  then have "s = rev (dropWhile isSpace (rev s)) @ rev (takeWhile isSpace (rev s))"
    by (metis rev_append rev_rev_ident)
  moreover have "\<forall>x\<in>set (rev (takeWhile isSpace (rev s))). isSpace x"
    by (auto dest: set_takeWhileD)
  ultimately show ?thesis unfolding trimEnd_def by blast
qed

lemma trimEnd_append_keep: "trimEnd b \<noteq> [] \<Longrightarrow> trimEnd (a @ b) = a @ trimEnd b"
  by (auto simp: trimEnd_def dropWhile_append)

lemma trimEnd_hd:
  assumes "s \<noteq> []" "\<not> isSpace (hd s)"
  shows "trimEnd s \<noteq> [] \<and> hd (trimEnd s) = hd s"
proof -
  obtain sp where sp: "s = trimEnd s @ sp" "\<forall>x\<in>set sp. isSpace x"
    using trimEnd_decomp by blast
  have ne: "trimEnd s \<noteq> []"
  proof
    assume "trimEnd s = []"
    then have "s = sp" using sp(1) by simp
    then show False using assms sp(2) by (cases s) auto
  qed
  then have "hd s = hd (trimEnd s)" using sp(1) by (metis hd_append2)
  then show ?thesis using ne by simp
qed

lemma trimStart_id: "s = [] \<or> \<not> isSpace (hd s) \<Longrightarrow> trimStart s = s"
  by (cases s) (auto simp: trimStart_def)

lemma trim_all_spaces: "\<forall>x\<in>set sp. isSpace x \<Longrightarrow> trim sp = []"
proof -
  assume "\<forall>x\<in>set sp. isSpace x"
  then have d: "dropWhile isSpace sp = []" by (induction sp) auto
  show ?thesis unfolding trim_def trimStart_def trimEnd_def d by simp
qed

lemma trim_append_spaces:
  assumes "\<forall>x\<in>set sp. isSpace x"
  shows "trim (a @ sp) = trim a"
proof (cases "\<forall>x\<in>set a. isSpace x")
  case True
  then have "\<forall>x\<in>set (a @ sp). isSpace x" using assms by auto
  then have "trim (a @ sp) = []" by (rule trim_all_spaces)
  then show ?thesis using True by (simp add: trim_all_spaces)
next
  case False
  then have "trimStart (a @ sp) = trimStart a @ sp"
    by (simp add: trimStart_def dropWhile_some)
  then show ?thesis using assms by (simp add: trim_def trimEnd_append_spaces)
qed

lemma trim_after_cut:
  assumes "\<forall>x\<in>set sp. isSpace x"
  shows "trim (drop 1 (dropWhile P (X @ sp))) = trim (drop 1 (dropWhile P X))"
proof (cases "\<forall>x\<in>set X. P x")
  case True
  then have a: "dropWhile P X = []" and b: "dropWhile P (X @ sp) = dropWhile P sp"
    using dropWhile_all[of X P "[]"] by (simp_all add: dropWhile_all)
  have "\<forall>x\<in>set (drop 1 (dropWhile P sp)). isSpace x"
    using assms by (meson in_set_dropD set_dropWhileD)
  then have "trim (drop 1 (dropWhile P sp)) = []" by (rule trim_all_spaces)
  moreover have "trim [] = []" by (simp add: trim_all_spaces)
  ultimately show ?thesis unfolding a b by simp
next
  case False
  then have ne: "dropWhile P X \<noteq> []" by auto
  have "dropWhile P (X @ sp) = dropWhile P X @ sp"
    using False by (simp add: dropWhile_some)
  then have "drop 1 (dropWhile P (X @ sp)) = drop 1 (dropWhile P X) @ sp"
    using ne by (cases "dropWhile P X") auto
  then show ?thesis using assms by (simp add: trim_append_spaces)
qed

lemma strip_h3_line_heading:
  assumes "ws \<noteq> []" "\<forall>x\<in>set ws. isSpace x" "X \<noteq> []" "\<not> isSpace (hd X)"
  shows "strip_h3_line ([chHash, chHash, chHash] @ ws @ X) =
           drop 1 (dropWhile (\<lambda>c. c \<noteq> chNewline) X)"
proof -
  let ?t = "ws @ X"
  have tw: "takeWhile isSpace ?t = ws"
    using assms by (cases X) (auto simp: takeWhile_append2)
  have n1: "1 \<le> length ws" using assms(1) by (cases ws) auto
  then have upt: "rev [1..<Suc (length ws)] = length ws # rev [1..<length ws]" by simp
  have at: "?t ! length ws = hd X" using assms(3) by (cases X) (auto simp: nth_append)
  have "hd X \<noteq> chNewline" using assms(4) isSpace_chNewline by auto
  then have fnd: "find (\<lambda>k. k < length ?t \<and> ?t ! k \<noteq> chNewline) (rev [1..<Suc (length ws)])
      = Some (length ws)"
    using at assms(3) unfolding upt by simp
  have d3: "drop 3 ([chHash, chHash, chHash] @ ws @ X) = ?t" by simp
  have t3: "take 3 ([chHash, chHash, chHash] @ ws @ X) = [chHash, chHash, chHash]" by simp
  show ?thesis
    unfolding strip_h3_line_def Let_def d3 t3 tw fnd by simp
qed

lemma join_Cons: "join sep (x # xs) = x @ concat (map (\<lambda>y. sep @ y) xs)"
  by (induction sep xs arbitrary: x rule: join.induct) auto

lemma h3_form:
  assumes "heading_capture 3 h = Some c" "trim c \<noteq> []"
  shows "\<exists>ws. h = [chHash, chHash, chHash] @ ws @ c \<and> ws \<noteq> [] \<and> (\<forall>x\<in>set ws. isSpace x)
     \<and> c \<noteq> [] \<and> \<not> isSpace (hd c) \<and> (\<forall>x\<in>set c. \<not> isLineTerminator x)"
proof -
  let ?t = "drop 3 h"
  let ?ws = "takeWhile isSpace ?t"
  let ?rest = "dropWhile isSpace ?t"
  have tk: "take 3 h = [chHash, chHash, chHash]" and wt: "ws_then_text ?t = Some c"
    using assms(1) by (auto simp: heading_capture_def eval_nat_numeral split: if_splits)
  have ws: "?ws \<noteq> []" using wt by (auto simp: ws_then_text_def Let_def split: if_splits)
  have rest: "?rest \<noteq> []"
  proof
    assume e: "?rest = []"
    then have "c = [last ?ws]" using wt by (auto simp: ws_then_text_def Let_def split: if_splits)
    moreover have "isSpace (last ?ws)" using ws by (meson last_in_set set_takeWhileD)
    ultimately have "trim c = []" by (simp add: trim_all_spaces)
    then show False using assms(2) by simp
  qed
  then have c: "c = ?rest" and lt: "\<not> list_ex isLineTerminator ?rest"
    using wt ws by (auto simp: ws_then_text_def Let_def split: if_splits)
  have "h = take 3 h @ ?ws @ ?rest" by simp
  then have "h = [chHash, chHash, chHash] @ ?ws @ c" using tk c by simp
  moreover have "\<forall>x\<in>set ?ws. isSpace x" by (auto dest: set_takeWhileD)
  moreover have "\<not> isSpace (hd c)" using rest c by (metis hd_dropWhile)
  moreover have "\<forall>x\<in>set c. \<not> isLineTerminator x" using lt c by (simp add: list_ex_iff)
  ultimately show ?thesis using ws rest c by blast
qed

lemma isLineTerminator_chNewline [simp]: "isLineTerminator chNewline"
  by (simp add: isLineTerminator_def chNewline_def)

lemma h3_block_content:
  assumes "heading_capture 3 h = Some c" "trim c \<noteq> []"
  shows "trim (join [chNewline] (h # b)) \<noteq> []
       \<and> trim (strip_h3_line (trim (join [chNewline] (h # b)))) = trim (join [chNewline] b)"
proof -
  obtain ws where h: "h = [chHash, chHash, chHash] @ ws @ c" and ws: "ws \<noteq> []" "\<forall>x\<in>set ws. isSpace x"
    and c: "c \<noteq> []" "\<not> isSpace (hd c)" "\<forall>x\<in>set c. \<not> isLineTerminator x"
    using h3_form[OF assms] by blast
  define tail where "tail = concat (map (\<lambda>y. [chNewline] @ y) b)"
  define Y where "Y = c @ tail"
  define X where "X = trimEnd Y"
  have jn: "join [chNewline] (h # b) = [chHash, chHash, chHash] @ ws @ Y"
    by (simp add: join_Cons h Y_def tail_def)
  have Yne: "Y \<noteq> []" "\<not> isSpace (hd Y)" using c by (simp_all add: Y_def)
  have X: "X \<noteq> []" "\<not> isSpace (hd X)" using trimEnd_hd[OF Yne] Yne by (simp_all add: X_def)
  obtain sp where sp: "Y = X @ sp" "\<forall>x\<in>set sp. isSpace x"
    using trimEnd_decomp[of Y] by (auto simp: X_def)
  have "trimStart (join [chNewline] (h # b)) = join [chNewline] (h # b)"
    by (rule trimStart_id) (simp add: jn)
  then have tr: "trim (join [chNewline] (h # b)) = [chHash, chHash, chHash] @ ws @ X"
    using X(1) trimEnd_append_keep[of Y "[chHash, chHash, chHash] @ ws"]
    by (simp add: trim_def jn X_def)
  have st: "strip_h3_line (trim (join [chNewline] (h # b))) =
      drop 1 (dropWhile (\<lambda>c. c \<noteq> chNewline) X)"
    unfolding tr by (rule strip_h3_line_heading[OF ws X])
  have "trim (drop 1 (dropWhile (\<lambda>c. c \<noteq> chNewline) X)) =
        trim (drop 1 (dropWhile (\<lambda>c. c \<noteq> chNewline) Y))"
    unfolding sp(1) by (rule trim_after_cut[OF sp(2), symmetric])
  moreover have "\<forall>x\<in>set c. x \<noteq> chNewline" using c(3) isLineTerminator_chNewline by auto
  then have "dropWhile (\<lambda>c. c \<noteq> chNewline) Y = dropWhile (\<lambda>c. c \<noteq> chNewline) tail"
    by (simp add: Y_def dropWhile_all)
  moreover have "drop 1 (dropWhile (\<lambda>c. c \<noteq> chNewline) tail) = join [chNewline] b"
    by (cases b) (simp_all add: tail_def join_Cons)
  ultimately show ?thesis using st tr by simp
qed

lemma h3_line_trim_nonempty:
  assumes "heading_capture 3 h = Some c"
  shows "trim (join [chNewline] (h # b)) \<noteq> []"
proof -
  have "take 3 h = [chHash, chHash, chHash]"
    using assms by (auto simp: heading_capture_def eval_nat_numeral split: if_splits)
  then obtain h' where h: "h = chHash # h'" by (cases h) (auto simp: eval_nat_numeral)
  let ?j = "join [chNewline] (h # b)"
  have j: "?j \<noteq> []" "\<not> isSpace (hd ?j)" by (simp_all add: join_Cons h)
  then have "trimStart ?j = ?j" by (simp add: trimStart_id)
  then show ?thesis using trimEnd_hd[OF j] by (simp add: trim_def)
qed

lemma push_block_lead:
  assumes "\<forall>x\<in>set lead. heading_capture 3 x = None"
  shows "push_block [] lead =
    (if trim (join [chNewline] lead) \<noteq> []
     then [\<lparr>sp_subtitle = None, sp_content = trim (join [chNewline] lead)\<rparr>] else [])"
proof (cases lead)
  case Nil
  then show ?thesis by (simp add: trim_all_spaces)
next
  case (Cons x xs)
  then have "heading_capture 3 (hd lead) = None" using assms by simp
  then show ?thesis using Cons by (simp add: push_block_def Let_def)
qed

lemma push_block_h3:
  assumes "heading_capture 3 h = Some c"
  shows "push_block [] (h # b) =
     [\<lparr>sp_subtitle = Some (trim c), sp_content = trim (join [chNewline] (h # b))\<rparr>]"
  using assms h3_line_trim_nonempty[OF assms, of b] by (simp add: push_block_def Let_def)

lemma h3_blocks_heads:
  "(h, b) \<in> set (h3_blocks body) \<Longrightarrow> h \<in> set body \<and> heading_capture 3 h \<noteq> None"
  by (induction body) (auto split: if_splits)

lemma h3_blocks_empty:
  "(h3_blocks body = []) = (\<forall>x\<in>set body. heading_capture 3 x = None)"
  by (induction body) auto

definition page_of :: "jsstring \<Rightarrow> subpage \<Rightarrow> page" where
  "page_of pageTitle sp =
     \<lparr>ptype = ContentPage, title = pageTitle, subtitle = sp_subtitle sp,
      content = (if truthy (sp_subtitle sp) then trim (strip_h3_line (sp_content sp))
                 else sp_content sp)\<rparr>"

lemma section_pages_alt:
  "section_pages ttl sps =
     (if sps = [] then [\<lparr>ptype = ContentPage, title = ttl, subtitle = None, content = []\<rparr>]
      else map (page_of ttl) sps)"
  by (simp add: section_pages_def page_of_def)

lemma section_pages_nonempty: "section_pages ttl sps \<noteq> []"
  by (simp add: section_pages_alt)

lemma section_pages_kind:
  "p \<in> set (section_pages ttl sps) \<Longrightarrow> ptype p = ContentPage \<and> title p = ttl"
  by (auto simp: section_pages_alt page_of_def split: if_splits)

definition code_blocks :: "jsstring list \<Rightarrow> subpage list" where
  "code_blocks body =
     push_block [] (takeWhile (\<lambda>x. heading_capture 3 x = None) body)
       @ concat (map (\<lambda>(h, b). push_block [] (h # b)) (h3_blocks body))"

lemma code_blocks_empty:
  "(code_blocks body = []) =
     ((\<forall>x\<in>set body. heading_capture 3 x = None) \<and> trim (join [chNewline] body) = [])"
proof (cases "\<forall>x\<in>set body. heading_capture 3 x = None")
  case True
  then have tw: "takeWhile (\<lambda>x. heading_capture 3 x = None) body = body"
    and hb: "h3_blocks body = []"
    by (simp_all add: h3_blocks_empty)
  show ?thesis
    unfolding code_blocks_def tw hb using True push_block_lead[OF True] by simp
next
  case False
  then obtain h b hs where hb: "h3_blocks body = (h, b) # hs"
    using h3_blocks_empty[of body] by (cases "h3_blocks body") auto
  then have "heading_capture 3 h \<noteq> None" using h3_blocks_heads[of h b body] by simp
  then obtain c where "heading_capture 3 h = Some c" by auto
  then have "push_block [] (h # b) \<noteq> []" by (simp add: push_block_h3)
  then show ?thesis using False hb by (simp add: code_blocks_def)
qed

lemma page_of_block:
  assumes "heading_capture 3 h = Some c" "trim c \<noteq> []"
  shows "map (page_of ttl) (push_block [] (h # b)) =
     [\<lparr>ptype = ContentPage, title = ttl, subtitle = map_option trim (heading_capture 3 h),
       content = trim (join [chNewline] b)\<rparr>]"
  using assms h3_block_content[OF assms, of b]
  by (simp add: push_block_h3 page_of_def truthy_def)

lemma page_of_blocks:
  assumes "\<forall>(h, b)\<in>set bs. case heading_capture 3 h of None \<Rightarrow> False | Some c \<Rightarrow> trim c \<noteq> []"
  shows "map (page_of ttl) (concat (map (\<lambda>(h, b). push_block [] (h # b)) bs)) =
     map (\<lambda>(h, b). \<lparr>ptype = ContentPage, title = ttl,
                     subtitle = map_option trim (heading_capture 3 h),
                     content = trim (join [chNewline] b)\<rparr>) bs"
  using assms
proof (induction bs)
  case Nil
  then show ?case by simp
next
  case (Cons x bs)
  obtain h b where x: "x = (h, b)" by (cases x)
  then obtain c where c: "heading_capture 3 h = Some c" "trim c \<noteq> []"
    using Cons.prems by (auto split: option.splits)
  show ?case using Cons x page_of_block[OF c, of ttl b] by simp
qed

lemma section_pages_spec:
  assumes "\<forall>x\<in>set body. case heading_capture 3 x of None \<Rightarrow> True | Some c \<Rightarrow> trim c \<noteq> []"
  shows "section_pages ttl (code_blocks body) = spec_section_pages ttl body"
proof -
  let ?lead = "takeWhile (\<lambda>x. heading_capture 3 x = None) body"
  have lead: "push_block [] ?lead =
    (if trim (join [chNewline] ?lead) \<noteq> []
     then [\<lparr>sp_subtitle = None, sp_content = trim (join [chNewline] ?lead)\<rparr>] else [])"
    by (rule push_block_lead) (auto dest: set_takeWhileD)
  have "\<forall>(h, b)\<in>set (h3_blocks body).
      case heading_capture 3 h of None \<Rightarrow> False | Some c \<Rightarrow> trim c \<noteq> []"
    using assms h3_blocks_heads[of _ _ body] by (fastforce split: option.splits)
  note blocks = page_of_blocks[OF this, of ttl]
  define P where "P =
     (if trim (join [chNewline] ?lead) \<noteq> [] then
        [\<lparr>ptype = ContentPage, title = ttl, subtitle = None,
          content = trim (join [chNewline] ?lead)\<rparr>]
      else []) @
     map (\<lambda>(h, b). \<lparr>ptype = ContentPage, title = ttl,
                     subtitle = map_option trim (heading_capture 3 h),
                     content = trim (join [chNewline] b)\<rparr>) (h3_blocks body)"
  have m: "map (page_of ttl) (code_blocks body) = P"
    unfolding code_blocks_def P_def map_append blocks lead
    by (simp add: page_of_def truthy_def)
  have "(code_blocks body = []) = (P = [])"
    using m by (metis map_is_Nil_conv)
  then have "section_pages ttl (code_blocks body) =
     (if P = [] then [\<lparr>ptype = ContentPage, title = ttl, subtitle = None, content = []\<rparr>]
      else P)"
    using m by (simp add: section_pages_alt)
  then show ?thesis
    unfolding spec_section_pages_def Let_def P_def .
qed

lemma scan_h2_section:
  assumes "heading_capture 2 l = Some cap" "\<forall>x\<in>set body. \<not> h2Next x"
    "post = [] \<or> h2Next (hd post)"
  shows "scan_h2 (l # body @ post) = section_pages (trim cap) (code_blocks body) @ scan_h2 post"
  using assms(1) collect_section_blocks[OF assms(2,3)] by (simp add: code_blocks_def)

text \<open>
  The section of a second-level heading, as the inner loop delimits it: the lines below
  the heading up to, and without, the next line that begins with \<open>##\<close> and a whitespace
  character (\<^verbatim>\<open>/^##\s+/\<close>, \<open>h2Next\<close>), or up to the end of the document. Such a line ends
  the section also when it is no second-level heading itself, as \<open>##\<close> and one space with
  nothing behind: the outer loop then skips it and the lines below it up to the next
  second-level heading, which belong to no section and yield no page.
\<close>

lemma section_ends_at_marker:
  "h2Next (js ''## '') \<and> heading_capture 2 (js ''## '') = None
   \<and> collect_section [js ''x'', js ''## '', js ''y'', js ''### S'', js ''z'', js ''## B''] =
       ([\<lparr>sp_subtitle = None, sp_content = js ''x''\<rparr>],
        [js ''## '', js ''y'', js ''### S'', js ''z'', js ''## B''])
   \<and> parseMarkdown (js ''# T\<newline>## A\<newline>## \<newline>### S\<newline>z'') =
     [\<lparr>ptype = TitlePage, title = js ''T'', subtitle = None, content = []\<rparr>,
      \<lparr>ptype = ContentPage, title = js ''A'', subtitle = None, content = []\<rparr>]"
  by code_simp

text \<open>
  Claim C2, amended. Take a second-level heading \<open>l\<close> that follows a top-level heading
  and its section \<open>body\<close>: the lines below \<open>l\<close> up to, and without, the next line that
  begins with \<open>##\<close> and a whitespace character (also one that is no heading, as \<open>##\<close> and
  one space), or up to the end of the document; what follows such a line belongs to the
  section no more. Suppose that every third-level heading of the section has a
  non-blank text. Then the pages \<open>parseMarkdown\<close> emits for the section are exactly: one
  page without subtitle for the text before the first third-level heading if that text
  is not blank, and one page for every third-level heading, with the second-level
  heading's text as title, the third-level heading's text as subtitle and the trimmed
  lines below the heading (the heading line itself stripped) as content; a third-level
  heading with an empty body keeps its page, with empty content.
\<close>

theorem parse_h3_sections:
  assumes "split_on chNewline md = pre @ l # body @ post"
    and "\<exists>x\<in>set pre. heading_capture 1 x \<noteq> None"
    and "heading_capture 2 l = Some cap"
    and "\<forall>x\<in>set body. \<not> h2Next x"
    and "post = [] \<or> h2Next (hd post)"
    and "\<forall>x\<in>set body. case heading_capture 3 x of None \<Rightarrow> True | Some c \<Rightarrow> trim c \<noteq> []"
  shows "parseMarkdown md = parse_lines pre @ spec_section_pages (trim cap) body @ scan_h2 post"
  using assms(1) parse_lines_append[OF assms(2,3), of "body @ post"]
    scan_h2_section[OF assms(3,4,5)] section_pages_spec[OF assms(6), of "trim cap"]
  by (simp add: parseMarkdown_def)

text \<open>
  Claim C3, amended. Every second-level heading that follows a top-level heading is
  represented by at least one content page carrying its text as title. Its section is
  \<open>body\<close>, the lines below the heading up to, and without, the next line that begins with
  \<open>##\<close> and a whitespace character (also one that is no heading, as \<open>##\<close> and one space),
  or up to the end of the document. The section produces zero sub-blocks exactly when
  these lines hold no third-level heading and are blank after trimming, whatever follows
  the line that ends the section; and then \<open>parseMarkdown\<close> emits exactly one page for the
  heading, with empty content and no subtitle.
\<close>

theorem parse_empty_section:
  assumes "split_on chNewline md = pre @ l # body @ post"
    and "\<exists>x\<in>set pre. heading_capture 1 x \<noteq> None"
    and "heading_capture 2 l = Some cap"
    and "\<forall>x\<in>set body. \<not> h2Next x"
    and "post = [] \<or> h2Next (hd post)"
  shows "(\<exists>S. parseMarkdown md = parse_lines pre @ S @ scan_h2 post \<and> S \<noteq> []
            \<and> (\<forall>p\<in>set S. ptype p = ContentPage \<and> title p = trim cap))
     \<and> ((fst (collect_section body) = []) =
          ((\<forall>x\<in>set body. heading_capture 3 x = None) \<and> trim (join [chNewline] body) = []))
     \<and> (fst (collect_section body) = [] \<longrightarrow>
          parseMarkdown md =
            parse_lines pre
              @ [\<lparr>ptype = ContentPage, title = trim cap, subtitle = None, content = []\<rparr>]
              @ scan_h2 post)"
proof -
  have cs: "fst (collect_section body) = code_blocks body"
    using collect_section_blocks[OF assms(4), of "[]"] by (simp add: code_blocks_def)
  have pm: "parseMarkdown md =
      parse_lines pre @ section_pages (trim cap) (fst (collect_section body)) @ scan_h2 post"
    using assms(1) parse_lines_append[OF assms(2,3), of "body @ post"]
      scan_h2_section[OF assms(3,4,5)] cs
    by (simp add: parseMarkdown_def)
  have ne: "section_pages (trim cap) (fst (collect_section body)) \<noteq> []"
    by (rule section_pages_nonempty)
  have kd: "\<forall>p\<in>set (section_pages (trim cap) (fst (collect_section body))).
      ptype p = ContentPage \<and> title p = trim cap"
    using section_pages_kind by blast
  have "\<exists>S. parseMarkdown md = parse_lines pre @ S @ scan_h2 post \<and> S \<noteq> []
            \<and> (\<forall>p\<in>set S. ptype p = ContentPage \<and> title p = trim cap)"
    using pm ne kd by blast
  moreover have "(fst (collect_section body) = []) =
          ((\<forall>x\<in>set body. heading_capture 3 x = None) \<and> trim (join [chNewline] body) = [])"
    unfolding cs by (rule code_blocks_empty)
  moreover have "fst (collect_section body) = [] \<longrightarrow>
      parseMarkdown md =
        parse_lines pre
          @ [\<lparr>ptype = ContentPage, title = trim cap, subtitle = None, content = []\<rparr>]
          @ scan_h2 post"
    using pm by (simp add: section_pages_alt)
  ultimately show ?thesis by blast
qed

theorem parse_h3_sections_witness:
  "split_on chNewline (js ''# T\<newline>## A\<newline>lead\<newline>### B\<newline>x\<newline>### C\<newline>## D'') =
     [js ''# T''] @ js ''## A'' # [js ''lead'', js ''### B'', js ''x'', js ''### C''] @ [js ''## D'']
   \<and> heading_capture 2 (js ''## A'') = Some (js ''A'')
   \<and> parseMarkdown (js ''# T\<newline>## A\<newline>lead\<newline>### B\<newline>x\<newline>### C\<newline>## D'') =
     [\<lparr>ptype = TitlePage, title = js ''T'', subtitle = None, content = []\<rparr>,
      \<lparr>ptype = ContentPage, title = js ''A'', subtitle = None, content = js ''lead''\<rparr>,
      \<lparr>ptype = ContentPage, title = js ''A'', subtitle = Some (js ''B''), content = js ''x''\<rparr>,
      \<lparr>ptype = ContentPage, title = js ''A'', subtitle = Some (js ''C''), content = []\<rparr>,
      \<lparr>ptype = ContentPage, title = js ''D'', subtitle = None, content = []\<rparr>]"
proof -
  let ?md = "js ''# T\<newline>## A\<newline>lead\<newline>### B\<newline>x\<newline>### C\<newline>## D''"
  let ?pre = "[js ''# T'']"
  let ?body = "[js ''lead'', js ''### B'', js ''x'', js ''### C'']"
  let ?post = "[js ''## D'']"
  have a1: "split_on chNewline ?md = ?pre @ js ''## A'' # ?body @ ?post" by code_simp
  have a2: "\<exists>x\<in>set ?pre. heading_capture 1 x \<noteq> None" by code_simp
  have a3: "heading_capture 2 (js ''## A'') = Some (js ''A'')" by code_simp
  have a4: "\<forall>x\<in>set ?body. \<not> h2Next x" by code_simp
  have a5: "?post = [] \<or> h2Next (hd ?post)" by code_simp
  have a6: "\<forall>x\<in>set ?body. case heading_capture 3 x of None \<Rightarrow> True | Some c \<Rightarrow> trim c \<noteq> []"
    by code_simp
  have "parse_lines ?pre @ spec_section_pages (trim (js ''A'')) ?body @ scan_h2 ?post =
     [\<lparr>ptype = TitlePage, title = js ''T'', subtitle = None, content = []\<rparr>,
      \<lparr>ptype = ContentPage, title = js ''A'', subtitle = None, content = js ''lead''\<rparr>,
      \<lparr>ptype = ContentPage, title = js ''A'', subtitle = Some (js ''B''), content = js ''x''\<rparr>,
      \<lparr>ptype = ContentPage, title = js ''A'', subtitle = Some (js ''C''), content = []\<rparr>,
      \<lparr>ptype = ContentPage, title = js ''D'', subtitle = None, content = []\<rparr>]"
    by code_simp
  then show ?thesis
    using parse_h3_sections[OF a1 a2 a3 a4 a5 a6] a1 a3 by simp
qed

text \<open>
  Claim C2 as stated fails: the third-level heading \<open>B\<close> has an empty body and still
  yields a page. (The second document shows why the amended claim asks for non-blank
  heading texts: for a heading line of \<open>###\<close> and two spaces the captured text is blank,
  the subtitle is the empty string and the heading line stays in the content. The third
  document shows why it says where a section ends: the line of \<open>##\<close> and one space is no
  heading and ends the section of \<open>A\<close>, so the third-level heading \<open>S\<close> below it, with
  the body \<open>z\<close>, has no page although no second-level heading stands between \<open>A\<close> and
  \<open>S\<close>.)
\<close>

theorem parse_h3_sections_counterexample:
  "parseMarkdown (js ''# T\<newline>## A\<newline>### B\<newline>\<newline>### C\<newline>x'') =
     [\<lparr>ptype = TitlePage, title = js ''T'', subtitle = None, content = []\<rparr>,
      \<lparr>ptype = ContentPage, title = js ''A'', subtitle = Some (js ''B''), content = []\<rparr>,
      \<lparr>ptype = ContentPage, title = js ''A'', subtitle = Some (js ''C''), content = js ''x''\<rparr>]
   \<and> parseMarkdown (js ''# T\<newline>## A\<newline>###  \<newline>x'') =
     [\<lparr>ptype = TitlePage, title = js ''T'', subtitle = None, content = []\<rparr>,
      \<lparr>ptype = ContentPage, title = js ''A'', subtitle = Some [],
        content = js ''###  \<newline>x''\<rparr>]
   \<and> heading_capture 2 (js ''## '') = None
   \<and> parseMarkdown (js ''# T\<newline>## A\<newline>x\<newline>## \<newline>y\<newline>### S\<newline>z\<newline>## B'') =
     [\<lparr>ptype = TitlePage, title = js ''T'', subtitle = None, content = []\<rparr>,
      \<lparr>ptype = ContentPage, title = js ''A'', subtitle = None, content = js ''x''\<rparr>,
      \<lparr>ptype = ContentPage, title = js ''B'', subtitle = None, content = []\<rparr>]"
  by code_simp

theorem parse_empty_section_witness:
  "split_on chNewline (js ''# T\<newline>## A\<newline>\<newline>## B'') =
     [js ''# T''] @ js ''## A'' # [[]] @ [js ''## B'']
   \<and> heading_capture 2 (js ''## A'') = Some (js ''A'')
   \<and> fst (collect_section [[]]) = []
   \<and> parseMarkdown (js ''# T\<newline>## A\<newline>\<newline>## B'') =
     [\<lparr>ptype = TitlePage, title = js ''T'', subtitle = None, content = []\<rparr>,
      \<lparr>ptype = ContentPage, title = js ''A'', subtitle = None, content = []\<rparr>,
      \<lparr>ptype = ContentPage, title = js ''B'', subtitle = None, content = []\<rparr>]"
proof -
  let ?md = "js ''# T\<newline>## A\<newline>\<newline>## B''"
  let ?pre = "[js ''# T'']"
  let ?post = "[js ''## B'']"
  have a1: "split_on chNewline ?md = ?pre @ js ''## A'' # [[]] @ ?post" by code_simp
  have a2: "\<exists>x\<in>set ?pre. heading_capture 1 x \<noteq> None" by code_simp
  have a3: "heading_capture 2 (js ''## A'') = Some (js ''A'')" by code_simp
  have a4: "\<forall>x\<in>set [[]]. \<not> h2Next x" by code_simp
  have a5: "?post = [] \<or> h2Next (hd ?post)" by code_simp
  have e: "fst (collect_section [[]]) = []" by code_simp
  have "parse_lines ?pre
          @ [\<lparr>ptype = ContentPage, title = trim (js ''A''), subtitle = None, content = []\<rparr>]
          @ scan_h2 ?post =
     [\<lparr>ptype = TitlePage, title = js ''T'', subtitle = None, content = []\<rparr>,
      \<lparr>ptype = ContentPage, title = js ''A'', subtitle = None, content = []\<rparr>,
      \<lparr>ptype = ContentPage, title = js ''B'', subtitle = None, content = []\<rparr>]"
    by code_simp
  then show ?thesis
    using parse_empty_section[OF a1 a2 a3 a4 a5] a1 a3 e by simp
qed

text \<open>
  Claim C3 as stated fails for a second-level heading above the top-level heading: the
  scan for the title skips it, and no page represents it.
\<close>

theorem parse_empty_section_counterexample:
  "parseMarkdown (js ''## A\<newline># T'') =
     [\<lparr>ptype = TitlePage, title = js ''T'', subtitle = None, content = []\<rparr>]"
  by code_simp

text \<open>
  Claim C1. The document \<open>## A\<close>, \<open>body\<close> has no top-level heading and one second-level
  heading; \<open>parseMarkdown\<close> returns no page for it, while the second loop started at the
  top of the document would give the one content page the claim asks for.
\<close>

theorem parse_h2_only_empty:
  "parseMarkdown (js ''## A\<newline>body'') = []
   \<and> scan_h2 (split_on chNewline (js ''## A\<newline>body'')) =
       [\<lparr>ptype = ContentPage, title = js ''A'', subtitle = None, content = js ''body''\<rparr>]"
  by code_simp

subsection \<open>The navigation controller\<close>

definition clearScreen :: jsstring where
  "clearScreen = chEsc # js ''[2J'' @ chEsc # js ''[H''"
definition hideCursor :: jsstring where
  "hideCursor = chEsc # js ''[?25l''"
definition showCursor :: jsstring where
  "showCursor = chEsc # js ''[?25h''"

text \<open>
  The events of the session are the \<open>data\<close> events of standard input (a key, as the
  string \<open>key.toString()\<close>) and the \<open>resize\<close> events of standard output. What a handler
  does to the outside is recorded as a list of effects: a call
  \<open>render(pages[idx], idx, pages.length)\<close>, a write to standard output, a line on
  standard error, the end of the process.
\<close>

datatype event = Key jsstring | Resize

datatype effect = RenderCall int nat | WriteOut jsstring | ConsoleError jsstring | ExitProcess int

record session =
  idx :: int
  effects :: "effect list"
  exited :: bool

definition render_at :: "page list \<Rightarrow> session \<Rightarrow> session" where
  "render_at pages s = s\<lparr>effects := effects s @ [RenderCall (idx s) (length pages)]\<rparr>"

text \<open>The three key tests of the \<open>data\<close> handler.\<close>

definition isQuitKey :: "jsstring \<Rightarrow> bool" where
  "isQuitKey k = (k = js ''q'' \<or> k = [0x03])"

definition isNextKey :: "jsstring \<Rightarrow> bool" where
  "isNextKey k =
     (k = js ''n'' \<or> k = js '' '' \<or> k = chEsc # js ''[C'' \<or> k = js ''j'' \<or> k = [0x0D])"

definition isPrevKey :: "jsstring \<Rightarrow> bool" where
  "isPrevKey k = (k = js ''p'' \<or> k = js ''b'' \<or> k = chEsc # js ''[D'' \<or> k = js ''k'')"

text \<open>
  The \<open>data\<close> handler: \<open>process.exit\<close> ends the handler; the two \<open>if\<close> statements after
  it run one after the other.
\<close>

definition on_data :: "page list \<Rightarrow> jsstring \<Rightarrow> session \<Rightarrow> session" where
  "on_data pages k s =
     (if isQuitKey k then
        s\<lparr>effects := effects s @ [WriteOut (clearScreen @ showCursor), ExitProcess 0],
          exited := True\<rparr>
      else
        (let s1 = (if isNextKey k
                   then render_at pages (s\<lparr>idx := min (idx s + 1) (int (length pages) - 1)\<rparr>)
                   else s)
         in if isPrevKey k
            then render_at pages (s1\<lparr>idx := max (idx s1 - 1) 0\<rparr>)
            else s1))"

text \<open>One event; after \<open>process.exit\<close> no handler runs.\<close>

definition step :: "page list \<Rightarrow> session \<Rightarrow> event \<Rightarrow> session" where
  "step pages s ev =
     (if exited s then s
      else (case ev of Key k \<Rightarrow> on_data pages k s | Resize \<Rightarrow> render_at pages s))"

definition run :: "page list \<Rightarrow> event list \<Rightarrow> session \<Rightarrow> session" where
  "run pages evs s = foldl (step pages) s evs"

text \<open>
  \<open>main\<close> once the document is parsed: no page is a fatal error; otherwise the index is 0
  and the first page is rendered.
\<close>

definition start :: "page list \<Rightarrow> session" where
  "start pages =
     (if length pages = 0 then
        \<lparr>idx = 0,
         effects = [ConsoleError (js ''No valid structure found (need H1 or H2 headings)''),
                    ExitProcess 1],
         exited = True\<rparr>
      else render_at pages \<lparr>idx = 0, effects = [], exited = False\<rparr>)"

text \<open>The key mapping as the specification lists it.\<close>

datatype key_action = Next | Previous | Quit | Unrecognized

definition classify :: "jsstring \<Rightarrow> key_action" where
  "classify k =
     (if k \<in> {js ''n'', js '' '', chEsc # js ''[C'', js ''j'', [0x0D]} then Next
      else if k \<in> {js ''p'', js ''b'', chEsc # js ''[D'', js ''k''} then Previous
      else if k \<in> {js ''q'', [0x03]} then Quit
      else Unrecognized)"

lemma key_values:
  "js ''n'' = [0x6E]" "js ''q'' = [0x71]" "js '' '' = [0x20]" "js ''j'' = [0x6A]"
  "js ''p'' = [0x70]" "js ''b'' = [0x62]" "js ''k'' = [0x6B]"
  "js ''[C'' = [0x5B, 0x43]" "js ''[D'' = [0x5B, 0x44]"
  by (simp_all add: js_def)

lemma isQuitKey_alt: "isQuitKey k = (k = [0x71] \<or> k = [0x03])"
  by (simp add: isQuitKey_def key_values)

lemma isNextKey_alt:
  "isNextKey k = (k = [0x6E] \<or> k = [0x20] \<or> k = [0x1B, 0x5B, 0x43] \<or> k = [0x6A] \<or> k = [0x0D])"
  by (simp add: isNextKey_def key_values chEsc_def)

lemma isPrevKey_alt:
  "isPrevKey k = (k = [0x70] \<or> k = [0x62] \<or> k = [0x1B, 0x5B, 0x44] \<or> k = [0x6B])"
  by (simp add: isPrevKey_def key_values chEsc_def)

lemma next_not_others: "isNextKey k \<Longrightarrow> \<not> isQuitKey k \<and> \<not> isPrevKey k"
  unfolding isNextKey_alt isQuitKey_alt isPrevKey_alt by auto

lemma prev_not_others: "isPrevKey k \<Longrightarrow> \<not> isQuitKey k \<and> \<not> isNextKey k"
  unfolding isNextKey_alt isQuitKey_alt isPrevKey_alt by auto

lemma classify_alt:
  "classify k = (if isNextKey k then Next else if isPrevKey k then Previous
                 else if isQuitKey k then Quit else Unrecognized)"
  by (simp add: classify_def isNextKey_def isPrevKey_def isQuitKey_def)

text \<open>
  Claim C9. The keys \<open>n\<close>, space, right-arrow, \<open>j\<close> and enter advance (index
  \<open>min (idx + 1) (pageCount - 1)\<close>, one render); \<open>p\<close>, \<open>b\<close>, left-arrow and \<open>k\<close> retreat
  (index \<open>max (idx - 1) 0\<close>, one render); \<open>q\<close> and the interrupt byte quit; every other
  key leaves the session as it is: the index is unchanged and nothing is rendered.
\<close>

theorem key_mapping:
  "on_data pages k s =
     (case classify k of
        Next \<Rightarrow> s\<lparr>idx := min (idx s + 1) (int (length pages) - 1),
                   effects := effects s @ [RenderCall (min (idx s + 1) (int (length pages) - 1)) (length pages)]\<rparr>
      | Previous \<Rightarrow> s\<lparr>idx := max (idx s - 1) 0,
                   effects := effects s @ [RenderCall (max (idx s - 1) 0) (length pages)]\<rparr>
      | Quit \<Rightarrow> s\<lparr>effects := effects s @ [WriteOut (clearScreen @ showCursor), ExitProcess 0],
                   exited := True\<rparr>
      | Unrecognized \<Rightarrow> s)"
proof -
  consider (n) "isNextKey k" | (p) "isPrevKey k" | (q) "isQuitKey k"
    | (u) "\<not> isNextKey k" "\<not> isPrevKey k" "\<not> isQuitKey k"
    by blast
  then show ?thesis
  proof cases
    case n
    then show ?thesis using next_not_others[OF n]
      by (simp add: classify_alt on_data_def render_at_def)
  next
    case p
    then show ?thesis using prev_not_others[OF p]
      by (simp add: classify_alt on_data_def render_at_def)
  next
    case q
    then have "\<not> isNextKey k" "\<not> isPrevKey k"
      using next_not_others prev_not_others by blast+
    then show ?thesis using q by (simp add: classify_alt on_data_def)
  next
    case u
    then show ?thesis by (simp add: classify_alt on_data_def)
  qed
qed

lemma on_data_range:
  assumes "0 \<le> idx s" "idx s \<le> int (length pages) - 1"
  shows "0 \<le> idx (on_data pages k s) \<and> idx (on_data pages k s) \<le> int (length pages) - 1"
  using assms by (auto simp: on_data_def render_at_def Let_def)

lemma step_range:
  assumes "0 \<le> idx s" "idx s \<le> int (length pages) - 1"
  shows "0 \<le> idx (step pages s ev) \<and> idx (step pages s ev) \<le> int (length pages) - 1"
  using assms on_data_range[OF assms] by (auto simp: step_def render_at_def split: event.splits)

lemma run_range:
  assumes "0 \<le> idx s" "idx s \<le> int (length pages) - 1"
  shows "0 \<le> idx (run pages evs s) \<and> idx (run pages evs s) \<le> int (length pages) - 1"
  using assms unfolding run_def
proof (induction evs arbitrary: s)
  case Nil
  then show ?case by simp
next
  case (Cons ev evs)
  then show ?case using step_range[of s pages ev] by simp
qed

text \<open>
  Claim C7. With at least one page, the index stays in \<open>[0, pageCount - 1]\<close> after every
  sequence of events, from the initial state and from every state in range; a retreat
  key at index 0 leaves the index at 0, an advance key at index \<open>pageCount - 1\<close> leaves it
  there, and a resize event never changes the index.
\<close>

theorem index_in_range:
  assumes "1 \<le> length pages"
  shows "0 \<le> idx (run pages evs (start pages))
     \<and> idx (run pages evs (start pages)) \<le> int (length pages) - 1
     \<and> (0 \<le> idx s \<and> idx s \<le> int (length pages) - 1 \<longrightarrow>
          0 \<le> idx (run pages evs s) \<and> idx (run pages evs s) \<le> int (length pages) - 1)
     \<and> (isPrevKey k \<and> idx s = 0 \<longrightarrow> idx (on_data pages k s) = 0)
     \<and> (isNextKey k \<and> idx s = int (length pages) - 1 \<longrightarrow>
          idx (on_data pages k s) = int (length pages) - 1)
     \<and> idx (step pages s Resize) = idx s"
proof -
  have st: "0 \<le> idx (start pages)" "idx (start pages) \<le> int (length pages) - 1"
    using assms by (auto simp: start_def render_at_def)
  have prev: "isPrevKey k \<and> idx s = 0 \<longrightarrow> idx (on_data pages k s) = 0"
    using prev_not_others[of k]
    by (auto simp: on_data_def render_at_def)
  have nxt: "isNextKey k \<and> idx s = int (length pages) - 1 \<longrightarrow>
          idx (on_data pages k s) = int (length pages) - 1"
    using next_not_others[of k] assms
    by (auto simp: on_data_def render_at_def)
  have rs: "idx (step pages s Resize) = idx s"
    by (simp add: step_def render_at_def)
  show ?thesis using run_range[OF st] run_range[of s pages evs] prev nxt rs by blast
qed

theorem index_in_range_witness:
  "idx (run [\<lparr>ptype = TitlePage, title = js ''T'', subtitle = None, content = []\<rparr>,
      \<lparr>ptype = ContentPage, title = js ''A'', subtitle = None, content = []\<rparr>] [Key (js ''p''), Key (js ''n''), Key (js ''j''), Resize, Key (js ''x'')]
          (start [\<lparr>ptype = TitlePage, title = js ''T'', subtitle = None, content = []\<rparr>,
      \<lparr>ptype = ContentPage, title = js ''A'', subtitle = None, content = []\<rparr>])) = 1
   \<and> idx (on_data [\<lparr>ptype = TitlePage, title = js ''T'', subtitle = None, content = []\<rparr>,
      \<lparr>ptype = ContentPage, title = js ''A'', subtitle = None, content = []\<rparr>] (js ''p'') \<lparr>idx = 0, effects = [], exited = False\<rparr>) = 0
   \<and> idx (on_data [\<lparr>ptype = TitlePage, title = js ''T'', subtitle = None, content = []\<rparr>,
      \<lparr>ptype = ContentPage, title = js ''A'', subtitle = None, content = []\<rparr>] (js ''n'') \<lparr>idx = 1, effects = [], exited = False\<rparr>) = 1
   \<and> idx (step [\<lparr>ptype = TitlePage, title = js ''T'', subtitle = None, content = []\<rparr>,
      \<lparr>ptype = ContentPage, title = js ''A'', subtitle = None, content = []\<rparr>] \<lparr>idx = 1, effects = [], exited = False\<rparr> Resize) = 1"
proof -
  have k: "isPrevKey (js ''p'')" "isNextKey (js ''n'')"
    by (simp_all add: isPrevKey_def isNextKey_def)
  have "idx (run [\<lparr>ptype = TitlePage, title = js ''T'', subtitle = None, content = []\<rparr>,
      \<lparr>ptype = ContentPage, title = js ''A'', subtitle = None, content = []\<rparr>] [Key (js ''p''), Key (js ''n''), Key (js ''j''), Resize, Key (js ''x'')]
          (start [\<lparr>ptype = TitlePage, title = js ''T'', subtitle = None, content = []\<rparr>,
      \<lparr>ptype = ContentPage, title = js ''A'', subtitle = None, content = []\<rparr>])) = 1"
    by (simp add: run_def step_def start_def render_at_def on_data_def
        isQuitKey_alt isNextKey_alt isPrevKey_alt key_values js_def)
  then show ?thesis
    using index_in_range[of "[\<lparr>ptype = TitlePage, title = js ''T'', subtitle = None, content = []\<rparr>,
      \<lparr>ptype = ContentPage, title = js ''A'', subtitle = None, content = []\<rparr>]" "[]" "\<lparr>idx = 0, effects = [], exited = False\<rparr>" "js ''p''"]
      index_in_range[of "[\<lparr>ptype = TitlePage, title = js ''T'', subtitle = None, content = []\<rparr>,
      \<lparr>ptype = ContentPage, title = js ''A'', subtitle = None, content = []\<rparr>]" "[]" "\<lparr>idx = 1, effects = [], exited = False\<rparr>" "js ''n''"] k
    by (simp add: run_def)
qed

theorem key_mapping_witness:
  "on_data [\<lparr>ptype = TitlePage, title = js ''T'', subtitle = None, content = []\<rparr>] (js ''x'') \<lparr>idx = 0, effects = [], exited = False\<rparr> =
     \<lparr>idx = 0, effects = [], exited = False\<rparr>
   \<and> on_data [\<lparr>ptype = TitlePage, title = js ''T'', subtitle = None, content = []\<rparr>,
      \<lparr>ptype = ContentPage, title = js ''A'', subtitle = None, content = []\<rparr>] [0x0D] \<lparr>idx = 0, effects = [], exited = False\<rparr> =
     \<lparr>idx = 1, effects = [RenderCall 1 2], exited = False\<rparr>
   \<and> on_data [\<lparr>ptype = TitlePage, title = js ''T'', subtitle = None, content = []\<rparr>,
      \<lparr>ptype = ContentPage, title = js ''A'', subtitle = None, content = []\<rparr>] (chEsc # js ''[D'') \<lparr>idx = 1, effects = [], exited = False\<rparr> =
     \<lparr>idx = 0, effects = [RenderCall 0 2], exited = False\<rparr>
   \<and> exited (on_data [\<lparr>ptype = TitlePage, title = js ''T'', subtitle = None, content = []\<rparr>] [0x03] \<lparr>idx = 0, effects = [], exited = False\<rparr>)"
proof -
  have c: "classify (js ''x'') = Unrecognized" "classify [0x0D] = Next"
    "classify (chEsc # js ''[D'') = Previous" "classify [0x03] = Quit"
    by (simp_all add: classify_alt isQuitKey_alt isNextKey_alt isPrevKey_alt js_def chEsc_def)
  show ?thesis
    using key_mapping[of "[\<lparr>ptype = TitlePage, title = js ''T'', subtitle = None, content = []\<rparr>]" "js ''x''" "\<lparr>idx = 0, effects = [], exited = False\<rparr>"]
      key_mapping[of "[\<lparr>ptype = TitlePage, title = js ''T'', subtitle = None, content = []\<rparr>,
      \<lparr>ptype = ContentPage, title = js ''A'', subtitle = None, content = []\<rparr>]" "[0x0D]" "\<lparr>idx = 0, effects = [], exited = False\<rparr>"]
      key_mapping[of "[\<lparr>ptype = TitlePage, title = js ''T'', subtitle = None, content = []\<rparr>,
      \<lparr>ptype = ContentPage, title = js ''A'', subtitle = None, content = []\<rparr>]" "chEsc # js ''[D''" "\<lparr>idx = 1, effects = [], exited = False\<rparr>"]
      key_mapping[of "[\<lparr>ptype = TitlePage, title = js ''T'', subtitle = None, content = []\<rparr>]" "[0x03]" "\<lparr>idx = 0, effects = [], exited = False\<rparr>"]
    by (simp add: c)
qed

subsection \<open>The inline style formatter\<close>

text \<open>The escape sequences of the five styles.\<close>

definition green :: jsstring where "green = chEsc # js ''[32m''"
definition red :: jsstring where "red = chEsc # js ''[31m''"
definition cyan :: jsstring where "cyan = chEsc # js ''[36m''"
definition orange :: jsstring where "orange = chEsc # js ''[38;5;208m''"
definition reset :: jsstring where "reset = chEsc # js ''[0m''"

text \<open>
  \<open>String.prototype.replace\<close> with a global pattern. The matcher \<open>m prev s\<close> says
  whether the pattern matches at the start of \<open>s\<close>, where \<open>prev\<close> is the code unit before
  that position (\<open>None\<close> at the start of the input; the assertion \<open>^\<close> of a pattern with the
  \<open>m\<close> flag reads it), and gives the replacement and the length of the match. The search
  goes on after the match; a position without a match keeps its code unit. After an
  empty match the code unit is kept and the search moves one position on (no pattern of
  the script has an empty match).
\<close>

function replace_all ::
  "(jschar option \<Rightarrow> jsstring \<Rightarrow> (jsstring \<times> nat) option) \<Rightarrow> jschar option \<Rightarrow> jsstring \<Rightarrow> jsstring" where
  "replace_all m prev [] = (case m prev [] of None \<Rightarrow> [] | Some (r, n) \<Rightarrow> r)"
| "replace_all m prev (c # cs) =
     (case m prev (c # cs) of
        None \<Rightarrow> c # replace_all m (Some c) cs
      | Some (r, n) \<Rightarrow>
          if n = 0 then r @ c # replace_all m (Some c) cs
          else r @ replace_all m (Some (last (take n (c # cs)))) (drop n (c # cs)))"
  by pat_completeness auto
termination
  by (relation "measure (\<lambda>(m, prev, s). length s)") auto

text \<open>\<open>^\<close> with the \<open>m\<close> flag: the start of the input, or right after a line terminator.\<close>

definition bol :: "jschar option \<Rightarrow> bool" where
  "bol prev = (case prev of None \<Rightarrow> True | Some c \<Rightarrow> isLineTerminator c)"

text \<open>The classes \<^verbatim>\<open>\w\<close> and \<^verbatim>\<open>\d\<close>.\<close>

definition isWordChar :: "jschar \<Rightarrow> bool" where
  "isWordChar c = ((0x61 \<le> c \<and> c \<le> 0x7A) \<or> (0x41 \<le> c \<and> c \<le> 0x5A)
     \<or> (0x30 \<le> c \<and> c \<le> 0x39) \<or> c = 0x5F)"

definition isDigit :: "jschar \<Rightarrow> bool" where
  "isDigit c = (0x30 \<le> c \<and> c \<le> 0x39)"

text \<open>
  \<^verbatim>\<open>/```[\s\S]*?```/g\<close>: an opening fence, then lazily up to the first closing fence.
  \<open>find_fence t\<close> is the offset of the first fence in \<open>t\<close>.
\<close>

fun find_fence :: "jsstring \<Rightarrow> nat option" where
  "find_fence [] = None"
| "find_fence (c # cs) =
     (if take 3 (c # cs) = [chBacktick, chBacktick, chBacktick] then Some 0
      else map_option Suc (find_fence cs))"

text \<open>
  The replacer function of the code-block step. \<open>lines\<close> is never empty (\<open>split\<close> returns
  at least one string); \<^verbatim>\<open>/^\w+$/\<close> matches a non-empty string of word characters;
  \<^verbatim>\<open>l.replace(/\s+$/, "")\<close> strips the trailing whitespace.
\<close>

definition format_block :: "jsstring \<Rightarrow> jsstring" where
  "format_block block =
     (let lines = split_on chNewline (slice_str block 3 (- 3));
          lang = (if hd lines \<noteq> [] \<and> list_all isWordChar (hd lines) then Some (hd lines) else None);
          codeLines = (if truthy lang then tl lines else lines)
      in join [chNewline] (map (\<lambda>l. orange @ js ''  '' @ trimEnd l @ reset) codeLines))"

definition fence_match :: "jschar option \<Rightarrow> jsstring \<Rightarrow> (jsstring \<times> nat) option" where
  "fence_match prev s =
     (if take 3 s = [chBacktick, chBacktick, chBacktick] then
        (case find_fence (drop 3 s) of
           None \<Rightarrow> None
         | Some k \<Rightarrow> Some (format_block (take (k + 6) s), k + 6))
      else None)"

text \<open>
  \<^verbatim>\<open>/^#{1,6}\s+/gm\<close>: at a line start, all the leading \<open>#\<close> (one to six: with seven or more
  no whitespace follows the sixth, nor any shorter prefix) and the whole run of whitespace
  after them.
\<close>

definition heading_prefix_match :: "jschar option \<Rightarrow> jsstring \<Rightarrow> (jsstring \<times> nat) option" where
  "heading_prefix_match prev s =
     (let n = length (takeWhile (\<lambda>c. c = chHash) s);
          w = length (takeWhile isSpace (drop n s))
      in if bol prev \<and> 1 \<le> n \<and> n \<le> 6 \<and> 1 \<le> w then Some ([], n + w) else None)"

text \<open>
  \<^verbatim>\<open>/\*\*([^*]+)\*\*/g\<close>, \<^verbatim>\<open>/__([^_]+)__/g\<close>, \<^verbatim>\<open>/\*([^*]+)\*/g\<close>, \<^verbatim>\<open>/_([^_]+)_/g\<close> and
  \<^verbatim>\<open>/`([^`]+)`/g\<close>: \<open>n\<close> delimiters \<open>d\<close>, the longest run of other characters (not empty; a
  shorter run is followed by a character that is not the delimiter), \<open>n\<close> delimiters. The
  replacement is the style's start marker, group 1 and the reset marker.
\<close>

definition delim_match ::
  "nat \<Rightarrow> jschar \<Rightarrow> jsstring \<Rightarrow> jschar option \<Rightarrow> jsstring \<Rightarrow> (jsstring \<times> nat) option" where
  "delim_match n d style prev s =
     (let run = takeWhile (\<lambda>c. c \<noteq> d) (drop n s) in
      if take n s = replicate n d \<and> run \<noteq> []
         \<and> take n (drop (n + length run) s) = replicate n d
      then Some (style @ run @ reset, n + length run + n) else None)"

text \<open>\<^verbatim>\<open>/\[([^\]]+)\]\([^)]+\)/g\<close>, replaced by group 1.\<close>

definition link_match :: "jschar option \<Rightarrow> jsstring \<Rightarrow> (jsstring \<times> nat) option" where
  "link_match prev s =
     (let label = takeWhile (\<lambda>c. c \<noteq> 0x5D) (drop 1 s);
          u = drop (1 + length label) s;
          target = takeWhile (\<lambda>c. c \<noteq> 0x29) (drop 2 u)
      in if take 1 s = [0x5B] \<and> label \<noteq> [] \<and> take 2 u = [0x5D, 0x28] \<and> target \<noteq> []
            \<and> take 1 (drop (2 + length target) u) = [0x29]
         then Some (label, 1 + length label + 2 + length target + 1) else None)"

text \<open>\<^verbatim>\<open>/^[-*]\s+/gm\<close>, replaced by two spaces, the bullet U+2022 and a space.\<close>

definition bullet_match :: "jschar option \<Rightarrow> jsstring \<Rightarrow> (jsstring \<times> nat) option" where
  "bullet_match prev s =
     (let w = length (takeWhile isSpace (drop 1 s))
      in if bol prev \<and> (take 1 s = [0x2D] \<or> take 1 s = [chStar]) \<and> 1 \<le> w
         then Some (js ''  '' @ [0x2022] @ js '' '', 1 + w) else None)"

text \<open>\<^verbatim>\<open>/^\d+\.\s+/gm\<close>, replaced by two spaces.\<close>

definition number_match :: "jschar option \<Rightarrow> jsstring \<Rightarrow> (jsstring \<times> nat) option" where
  "number_match prev s =
     (let n = length (takeWhile isDigit s);
          w = length (takeWhile isSpace (drop (n + 1) s))
      in if bol prev \<and> 1 \<le> n \<and> take 1 (drop n s) = [0x2E] \<and> 1 \<le> w
         then Some (js ''  '', n + 1 + w) else None)"

text \<open>
  The engine refuses a string longer than its maximal string length \<open>L\<close> (a constant of
  the engine, not of the script: \<open>2^29 - 24\<close> code units in 64-bit V8) with
  \<open>RangeError: Invalid string length\<close>; \<open>String.prototype.repeat\<close> refuses a negative
  count with \<open>RangeError: Invalid count value\<close>. The script catches neither. These are
  the exceptions the formatter and the renderer can raise; the size of the heap is not
  modelled (a run that exhausts it is aborted, it does not throw).
\<close>

datatype js_error = InvalidCountValue | InvalidStringLength

text \<open>A string the program has just built: it exists when it fits.\<close>

definition checked :: "int \<Rightarrow> jsstring \<Rightarrow> js_error + jsstring" where
  "checked L s = (if int (length s) \<le> L then Inr s else Inl InvalidStringLength)"

text \<open>
  A chain of \<open>.replace(...)\<close> calls: every call builds a new string from the result of
  the call before. (The strings a replacer builds on the way are parts of the call's
  result, hence shorter.)
\<close>

fun run_passes :: "int \<Rightarrow> (jsstring \<Rightarrow> jsstring) list \<Rightarrow> jsstring \<Rightarrow> js_error + jsstring" where
  "run_passes L [] s = Inr s"
| "run_passes L (f # fs) s =
     (case checked L (f s) of Inl e \<Rightarrow> Inl e | Inr r \<Rightarrow> run_passes L fs r)"

text \<open>The ten replacements of \<open>formatContent\<close>, in the order of the source.\<close>

definition format_passes :: "(jsstring \<Rightarrow> jsstring) list" where
  "format_passes =
     [replace_all fence_match None,
      replace_all heading_prefix_match None,
      replace_all (delim_match 2 chStar red) None,
      replace_all (delim_match 2 chUnderscore red) None,
      replace_all (delim_match 1 chStar cyan) None,
      replace_all (delim_match 1 chUnderscore cyan) None,
      replace_all (delim_match 1 chBacktick orange) None,
      replace_all link_match None,
      replace_all bullet_match None,
      replace_all number_match None]"

definition formatContent :: "int \<Rightarrow> jsstring \<Rightarrow> js_error + jsstring" where
  "formatContent L text = run_passes L format_passes text"

subsection \<open>The page renderer\<close>

definition MIN_COLUMNS_FOR_PADDING :: int where "MIN_COLUMNS_FOR_PADDING = 100"
definition LEFT_PADDING_SPACES :: int where "LEFT_PADDING_SPACES = 4"

text \<open>\<open>String.prototype.repeat(count)\<close> for an integer count.\<close>

definition repeat_str :: "int \<Rightarrow> jsstring \<Rightarrow> int \<Rightarrow> js_error + jsstring" where
  "repeat_str L s count =
     (if count < 0 then Inl InvalidCountValue
      else if int (length s) * count > L then Inl InvalidStringLength
      else Inr (concat (replicate (nat count) s)))"

text \<open>
  What a function of the renderer does: \<open>None\<close> when it does not return, \<open>Some (Inl e)\<close>
  when it throws \<open>e\<close>, \<open>Some (Inr v)\<close> when it returns \<open>v\<close>. \<open>then_do\<close> runs the next
  statement on the value of the one before.
\<close>

definition then_do ::
  "(js_error + 'a) option \<Rightarrow> ('a \<Rightarrow> (js_error + 'b) option) \<Rightarrow> (js_error + 'b) option" where
  "then_do r f = (case r of None \<Rightarrow> None | Some (Inl e) \<Rightarrow> Some (Inl e) | Some (Inr v) \<Rightarrow> f v)"

definition addLeftPadding :: "int \<Rightarrow> jsstring \<Rightarrow> int \<Rightarrow> js_error + jsstring" where
  "addLeftPadding L text columns =
     (if columns < MIN_COLUMNS_FOR_PADDING then Inr text
      else (case repeat_str L [chSpace] LEFT_PADDING_SPACES of
              Inl e \<Rightarrow> Inl e
            | Inr pad \<Rightarrow>
                checked L (join [chNewline] (map (\<lambda>line. pad @ line) (split_on chNewline text)))))"

text \<open>
  The two counts \<open>padContentBelow\<close> computes:
  \<^verbatim>\<open>Math.max(0, Math.floor((availableRows - contentHeight) / 2))\<close> and
  \<^verbatim>\<open>Math.max(0, availableRows - padding - contentHeight)\<close>.
\<close>

definition top_padding :: "int \<Rightarrow> int \<Rightarrow> int" where
  "top_padding contentHeight availableRows = max 0 ((availableRows - contentHeight) div 2)"

definition bottom_padding :: "int \<Rightarrow> int \<Rightarrow> int" where
  "bottom_padding contentHeight availableRows =
     max 0 (availableRows - top_padding contentHeight availableRows - contentHeight)"

definition padContentBelow :: "int \<Rightarrow> jsstring list \<Rightarrow> int \<Rightarrow> js_error + jsstring" where
  "padContentBelow L contentLines availableRows =
     (let contentHeight = int (length contentLines) in
      case repeat_str L [chNewline] (top_padding contentHeight availableRows) of
        Inl e \<Rightarrow> Inl e
      | Inr topRows \<Rightarrow>
          (case repeat_str L [chNewline] (bottom_padding contentHeight availableRows) of
             Inl e \<Rightarrow> Inl e
           | Inr bottomRows \<Rightarrow>
               (case checked L (join [chNewline] contentLines) of
                  Inl e \<Rightarrow> Inl e
                | Inr joined \<Rightarrow> checked L (topRows @ joined @ bottomRows))))"

text \<open>\<open>.flatMap((cl) => wrapLine(cl, contentWidth))\<close>; it returns when every call does.\<close>

fun flat_wrap :: "int \<Rightarrow> jsstring list \<Rightarrow> jsstring list option" where
  "flat_wrap width [] = Some []"
| "flat_wrap width (cl # cls) =
     (case wrapLine cl width of
        None \<Rightarrow> None
      | Some ls \<Rightarrow> (case flat_wrap width cls of None \<Rightarrow> None | Some r \<Rightarrow> Some (ls @ r)))"

text \<open>
  \<open>contentLines\<close>. (\<open>wrapLine\<close> builds no string longer than the line it is given, see
  \<open>wrapLine_fits\<close> below, so it has no length check of its own.)
\<close>

definition content_lines :: "int \<Rightarrow> jsstring \<Rightarrow> int \<Rightarrow> (js_error + jsstring list) option" where
  "content_lines L c contentWidth =
     (if c \<noteq> [] then
        (case formatContent L c of
           Inl e \<Rightarrow> Some (Inl e)
         | Inr formatted \<Rightarrow>
             (case flat_wrap contentWidth
                     (filter (\<lambda>l. l \<noteq> []) (split_on chNewline formatted)) of
                None \<Rightarrow> None
              | Some ls \<Rightarrow> Some (Inr ls)))
      else Some (Inr []))"

text \<open>\<open>headerLines\<close> of a content page.\<close>

definition header_lines :: "page \<Rightarrow> jsstring list" where
  "header_lines p =
     [green @ title p @ reset] @
     (case subtitle p of
        None \<Rightarrow> []
      | Some st \<Rightarrow> if st \<noteq> [] then [[], js ''  '' @ green @ st @ reset] else [])"

text \<open>
  \<open>formatPage(page, size)\<close>, statement by statement: the header, the content lines,
  the padded content, \<open>header + padContentBelow(...)\<close>, the left padding. (The lines of
  the header are parts of the header, so the header's check covers them.)
\<close>

definition formatPage :: "int \<Rightarrow> page \<Rightarrow> int \<times> int \<Rightarrow> (js_error + jsstring) option" where
  "formatPage L p sz =
     (case sz of (rows, columns) \<Rightarrow>
        (let totalRows = rows - 1;
             leftPadding = (if columns \<ge> MIN_COLUMNS_FOR_PADDING then LEFT_PADDING_SPACES else 0);
             contentWidth = columns - leftPadding
         in if ptype p = TitlePage then
              then_do (Some (checked L (green @ title p @ reset @ [chNewline]))) (\<lambda>header.
              then_do (content_lines L (content p) contentWidth) (\<lambda>contentLines.
              then_do (Some (padContentBelow L contentLines (totalRows - 1))) (\<lambda>padded.
              then_do (Some (checked L (header @ padded))) (\<lambda>output.
              Some (addLeftPadding L output columns)))))
            else
              then_do (Some (checked L (join [chNewline] (header_lines p) @ [chNewline])))
                (\<lambda>header.
              then_do (content_lines L (content p) contentWidth) (\<lambda>contentLines.
              then_do (Some (padContentBelow L contentLines
                               (max 0 (totalRows - int (length (header_lines p))))))
                (\<lambda>padded.
              then_do (Some (checked L (header @ padded))) (\<lambda>output.
              Some (addLeftPadding L output columns)))))))"

subsection \<open>The page renderer returns or runs out of string length\<close>

text \<open>
  Every line \<open>wrapLine\<close> returns, and every value of \<open>current\<close> on the way, is at most as
  long as the line: the wrapper builds no string that could exceed the maximal string
  length when its input does not.
\<close>

fun words_size :: "jsstring list \<Rightarrow> nat" where
  "words_size [] = 0"
| "words_size (w # ws) = Suc (length w) + words_size ws"

lemma wrap_words_fits:
  assumes "0 < width"
    and "\<forall>l\<in>set result. length l \<le> B"
    and "if current = [] then words_size ws \<le> Suc B else length current + 1 + words_size ws \<le> Suc B"
    and "wrap_words width ws (result, current) = Some (r, c)"
  shows "(\<forall>l\<in>set r. length l \<le> B) \<and> length c \<le> B"
  using assms(2-)
proof (induction ws arbitrary: result current)
  case Nil
  then show ?case by (auto split: if_splits)
next
  case (Cons w ws)
  have cur: "length current \<le> B" using Cons.prems(2) by (auto split: if_splits)
  have wB: "length w \<le> B" and wsB: "words_size ws \<le> Suc B"
    using Cons.prems(2) by (auto split: if_splits)
  have fl: "\<forall>l\<in>set (flush result current). length l \<le> B"
    using Cons.prems(1) cur by (auto simp: flush_def)
  show ?case
  proof (cases "width < int (length w)")
    case True
    have a: "\<forall>l\<in>set (flush result current @ hard_split (nat width) w). length l \<le> B"
    proof
      fix l assume "l \<in> set (flush result current @ hard_split (nat width) w)"
      then consider "l \<in> set (flush result current)" | "l \<in> set (hard_split (nat width) w)"
        by auto
      then show "length l \<le> B"
      proof cases
        case 1
        then show ?thesis using fl by blast
      next
        case 2
        then have "length l \<le> nat width" by (rule hard_split_length_le)
        then show ?thesis using True wB by linarith
      qed
    qed
    have b: "wrap_words width ws (flush result current @ hard_split (nat width) w, []) = Some (r, c)"
      using Cons.prems(3) wrap_words_long[OF assms(1) True, of ws result current] by simp
    have c: "if ([]::jsstring) = [] then words_size ws \<le> Suc B
        else length ([]::jsstring) + 1 + words_size ws \<le> Suc B"
      using wsB by simp
    show ?thesis by (rule Cons.IH[OF a c b])
  next
    case short: False
    show ?thesis
    proof (cases "int (length current) + int (length w) + 1 \<le> width")
      case True
      let ?c = "current @ (if current \<noteq> [] then [chSpace] else []) @ w"
      have b: "wrap_words width ws (result, ?c) = Some (r, c)"
        using Cons.prems(3) short True by simp
      have c: "if ?c = [] then words_size ws \<le> Suc B
          else length ?c + 1 + words_size ws \<le> Suc B"
        using Cons.prems(2) by (auto split: if_splits)
      show ?thesis by (rule Cons.IH[OF Cons.prems(1) c b])
    next
      case False
      have b: "wrap_words width ws (flush result current, w) = Some (r, c)"
        using Cons.prems(3) short False by simp
      have c: "if w = [] then words_size ws \<le> Suc B
          else length w + 1 + words_size ws \<le> Suc B"
        using Cons.prems(2) by (auto split: if_splits)
      show ?thesis by (rule Cons.IH[OF fl c b])
    qed
  qed
qed

lemma words_size_split: "words_size (split_on sep s) = Suc (length s)"
  by (induction s) (auto split: list.splits)

lemma wrapLine_fits:
  assumes "0 < width" "wrapLine line width = Some r"
  shows "\<forall>l\<in>set r. length l \<le> length line"
proof -
  obtain res c where rc: "wrap_words width (split_on chSpace line) ([], []) = Some (res, c)"
    and r: "r = flush res c"
    using assms(2) by (auto simp: wrapLine_def split: option.splits)
  have "(\<forall>l\<in>set res. length l \<le> length line) \<and> length c \<le> length line"
    by (rule wrap_words_fits[OF assms(1) _ _ rc]) (simp_all add: words_size_split)
  then show ?thesis using r by (auto simp: flush_def)
qed

text \<open>The only exception a step can raise once the counts are not negative.\<close>

definition fits_or_too_long :: "js_error + 'a \<Rightarrow> bool" where
  "fits_or_too_long r = (case r of Inl e \<Rightarrow> e = InvalidStringLength | Inr v \<Rightarrow> True)"

lemma checked_fits [simp]: "fits_or_too_long (checked L s)"
  by (simp add: checked_def fits_or_too_long_def)

lemma checked_Inl: "checked L s = Inl e \<Longrightarrow> e = InvalidStringLength"
  by (simp add: checked_def split: if_splits)

lemma repeat_str_fits: "0 \<le> count \<Longrightarrow> fits_or_too_long (repeat_str L s count)"
  by (simp add: repeat_str_def fits_or_too_long_def)

lemma run_passes_fits: "fits_or_too_long (run_passes L fs s)"
proof (induction fs arbitrary: s)
  case Nil
  then show ?case by (simp add: fits_or_too_long_def)
next
  case (Cons f fs)
  then show ?case
    by (cases "checked L (f s)") (auto simp: checked_def fits_or_too_long_def split: if_splits)
qed

lemma formatContent_fits: "fits_or_too_long (formatContent L text)"
  by (simp add: formatContent_def run_passes_fits)

lemma padding_nonneg: "0 \<le> top_padding h a \<and> 0 \<le> bottom_padding h a"
  by (simp add: top_padding_def bottom_padding_def)

lemma padContentBelow_fits: "fits_or_too_long (padContentBelow L cl a)"
proof -
  let ?h = "int (length cl)"
  have t: "fits_or_too_long (repeat_str L [chNewline] (top_padding ?h a))"
    and b: "fits_or_too_long (repeat_str L [chNewline] (bottom_padding ?h a))"
    using padding_nonneg[of ?h a] by (simp_all add: repeat_str_fits)
  show ?thesis
    using t b checked_fits[of L "join [chNewline] cl"]
    unfolding padContentBelow_def Let_def
    by (auto simp: fits_or_too_long_def split: sum.splits dest: checked_Inl)
qed

lemma addLeftPadding_fits: "fits_or_too_long (addLeftPadding L text columns)"
  using repeat_str_fits[of LEFT_PADDING_SPACES L "[chSpace]"]
  by (auto simp: addLeftPadding_def LEFT_PADDING_SPACES_def fits_or_too_long_def
      split: sum.splits dest: checked_Inl)

definition returns_or_too_long :: "(js_error + 'a) option \<Rightarrow> bool" where
  "returns_or_too_long r = (case r of None \<Rightarrow> False | Some v \<Rightarrow> fits_or_too_long v)"

lemma then_do_returns:
  assumes "returns_or_too_long r" "\<And>v. returns_or_too_long (f v)"
  shows "returns_or_too_long (then_do r f)"
proof (cases r)
  case None
  then show ?thesis using assms(1) by (simp add: returns_or_too_long_def)
next
  case (Some x)
  show ?thesis
  proof (cases x)
    case (Inl e)
    then show ?thesis using assms(1) Some
      by (auto simp: then_do_def returns_or_too_long_def fits_or_too_long_def)
  next
    case (Inr v)
    then show ?thesis using assms(2)[of v] Some by (simp add: then_do_def)
  qed
qed

lemma flat_wrap_total: "0 < width \<Longrightarrow> \<exists>r. flat_wrap width cls = Some r"
proof (induction cls)
  case Nil
  then show ?case by simp
next
  case (Cons cl cls)
  obtain ls where "wrapLine cl width = Some ls" using wrapLine_inv[OF Cons.prems, of cl] by blast
  then show ?case using Cons by auto
qed

lemma content_lines_returns: "0 < width \<Longrightarrow> returns_or_too_long (content_lines L c width)"
proof -
  assume w: "0 < width"
  show ?thesis
  proof (cases "formatContent L c")
    case (Inl e)
    then show ?thesis using formatContent_fits[of L c]
      by (simp add: content_lines_def returns_or_too_long_def fits_or_too_long_def)
  next
    case (Inr formatted)
    obtain ls where "flat_wrap width (filter (\<lambda>l. l \<noteq> []) (split_on chNewline formatted)) = Some ls"
      using flat_wrap_total[OF w] by blast
    then show ?thesis using Inr
      by (simp add: content_lines_def returns_or_too_long_def fits_or_too_long_def)
  qed
qed

lemma formatPage_returns:
  assumes "1 \<le> columns"
  shows "returns_or_too_long (formatPage L p (rows, columns))"
proof -
  let ?w = "columns - (if columns \<ge> MIN_COLUMNS_FOR_PADDING then LEFT_PADDING_SPACES else 0)"
  have w: "0 < ?w" using assms by (simp add: MIN_COLUMNS_FOR_PADDING_def LEFT_PADDING_SPACES_def)
  have s: "returns_or_too_long (Some r)" if "fits_or_too_long r" for r :: "js_error + jsstring"
    using that by (simp add: returns_or_too_long_def)
  have c: "returns_or_too_long (content_lines L (content p) ?w)"
    by (rule content_lines_returns[OF w])
  have body: "returns_or_too_long
      (then_do (Some (checked L h)) (\<lambda>header.
       then_do (content_lines L (content p) ?w) (\<lambda>contentLines.
       then_do (Some (padContentBelow L contentLines a)) (\<lambda>padded.
       then_do (Some (checked L (header @ padded))) (\<lambda>output.
       Some (addLeftPadding L output columns))))))" for h a
    by (intro then_do_returns s c padContentBelow_fits addLeftPadding_fits checked_fits)
  show ?thesis
    unfolding formatPage_def Let_def prod.case
    by (simp add: body)
qed

text \<open>
  How long the strings of the renderer get: the wrapped lines of a text hold at most twice
  its characters when joined, the padding rows are at most the rows of the terminal, and
  the left padding adds four spaces to a line.
\<close>

lemma words_size_append: "words_size (a @ b) = words_size a + words_size b"
  by (induction a) simp_all

lemma words_size_concat: "words_size ls = length (concat ls) + length ls"
  by (induction ls) simp_all

lemma nonempty_count: "\<forall>l\<in>set ls. l \<noteq> [] \<Longrightarrow> length ls \<le> length (concat ls)"
proof (induction ls)
  case Nil
  then show ?case by simp
next
  case (Cons l ls)
  then have "1 \<le> length l" by (cases l) simp_all
  moreover have "length ls \<le> length (concat ls)" using Cons by simp
  ultimately show ?case by simp
qed

lemma join_length: "length (join [c] ls) \<le> words_size ls"
  by (induction "[c]" ls rule: join.induct) simp_all

lemma words_size_filter: "words_size (filter P ls) \<le> words_size ls"
  by (induction ls) simp_all

lemma wrap_words_chars:
  assumes "0 < width"
  shows "wrap_words width ws (result, current) = Some (r, c) \<Longrightarrow>
     length (concat r) + length c \<le> length (concat result) + length current + words_size ws"
proof (induction ws arbitrary: result current)
  case Nil
  then show ?case by simp
next
  case (Cons w ws)
  have fl: "length (concat (flush result current)) = length (concat result) + length current"
    by (simp add: flush_def)
  show ?case
  proof (cases "width < int (length w)")
    case True
    have "wrap_words width ws (flush result current @ hard_split (nat width) w, []) = Some (r, c)"
      using Cons.prems wrap_words_long[OF assms True, of ws result current] by simp
    then have "length (concat r) + length c \<le>
        length (concat (flush result current @ hard_split (nat width) w)) + length ([]::jsstring)
          + words_size ws"
      by (rule Cons.IH)
    moreover have "concat (hard_split (nat width) w) = w"
      using assms by (intro concat_hard_split) simp
    ultimately show ?thesis using fl by simp
  next
    case short: False
    show ?thesis
    proof (cases "int (length current) + int (length w) + 1 \<le> width")
      case True
      let ?c = "current @ (if current \<noteq> [] then [chSpace] else []) @ w"
      have "wrap_words width ws (result, ?c) = Some (r, c)"
        using Cons.prems short True by simp
      then have "length (concat r) + length c \<le>
          length (concat result) + length ?c + words_size ws"
        by (rule Cons.IH)
      then show ?thesis by (simp split: if_splits)
    next
      case False
      have "wrap_words width ws (flush result current, w) = Some (r, c)"
        using Cons.prems short False by simp
      then have "length (concat r) + length c \<le>
          length (concat (flush result current)) + length w + words_size ws"
        by (rule Cons.IH)
      then show ?thesis using fl by simp
    qed
  qed
qed

lemma wrapLine_size:
  assumes "0 < width" "wrapLine line width = Some r"
  shows "words_size r \<le> 2 * Suc (length line)"
proof -
  obtain res c where rc: "wrap_words width (split_on chSpace line) ([], []) = Some (res, c)"
    and r: "r = flush res c"
    using assms(2) by (auto simp: wrapLine_def split: option.splits)
  have "length (concat res) + length c \<le> Suc (length line)"
    using wrap_words_chars[OF assms(1) rc] by (simp add: words_size_split)
  then have a: "length (concat r) \<le> Suc (length line)" using r by (simp add: flush_def)
  have "\<forall>l\<in>set r. l \<noteq> []" using wrapLine_inv[OF assms(1), of line] assms(2) by auto
  then have "length r \<le> length (concat r)" by (rule nonempty_count)
  then show ?thesis using a by (simp add: words_size_concat)
qed

lemma flat_wrap_size:
  assumes "0 < width"
  shows "flat_wrap width cls = Some r \<Longrightarrow> words_size r \<le> 2 * words_size cls"
proof (induction cls arbitrary: r)
  case Nil
  then show ?case by simp
next
  case (Cons cl cls)
  obtain ls rest where ls: "wrapLine cl width = Some ls" and rest: "flat_wrap width cls = Some rest"
    and r: "r = ls @ rest"
    using Cons.prems by (auto split: option.splits)
  show ?case
    using wrapLine_size[OF assms ls] Cons.IH[OF rest] r by (simp add: words_size_append)
qed

lemma content_lines_size:
  assumes "0 < width"
    and "if c = [] then formatted = [] else formatContent L c = Inr formatted"
  shows "\<exists>cl. content_lines L c width = Some (Inr cl) \<and> words_size cl \<le> 2 * Suc (length formatted)"
proof (cases "c = []")
  case True
  then show ?thesis by (simp add: content_lines_def)
next
  case False
  then have f: "formatContent L c = Inr formatted" using assms(2) by simp
  let ?ls = "filter (\<lambda>l. l \<noteq> []) (split_on chNewline formatted)"
  obtain cl where cl: "flat_wrap width ?ls = Some cl" using flat_wrap_total[OF assms(1)] by blast
  have "words_size cl \<le> 2 * words_size ?ls" by (rule flat_wrap_size[OF assms(1) cl])
  also have "\<dots> \<le> 2 * words_size (split_on chNewline formatted)"
    using words_size_filter[of _ "split_on chNewline formatted"] by simp
  finally have "words_size cl \<le> 2 * Suc (length formatted)" by (simp add: words_size_split)
  then show ?thesis using False f cl by (simp add: content_lines_def)
qed

lemma repeat_str_length:
  "0 \<le> count \<Longrightarrow> count \<le> L \<Longrightarrow>
   \<exists>out. repeat_str L [c] count = Inr out \<and> int (length out) = count"
  by (simp add: repeat_str_def length_concat sum_list_replicate)

lemma padContentBelow_returns:
  assumes "int (words_size cl) + max 0 a \<le> L"
  shows "\<exists>out. padContentBelow L cl a = Inr out \<and> int (length out) \<le> int (words_size cl) + max 0 a"
proof -
  let ?h = "int (length cl)"
  let ?t = "top_padding ?h a"
  let ?b = "bottom_padding ?h a"
  have sum: "0 \<le> ?t" "0 \<le> ?b" "?t + ?b \<le> max 0 a"
    by (auto simp: top_padding_def bottom_padding_def)
  obtain topRows where t: "repeat_str L [chNewline] ?t = Inr topRows" "int (length topRows) = ?t"
    using repeat_str_length[of ?t L chNewline] sum assms by auto
  obtain bottomRows where b: "repeat_str L [chNewline] ?b = Inr bottomRows"
      "int (length bottomRows) = ?b"
    using repeat_str_length[of ?b L chNewline] sum assms by auto
  have j: "int (length (join [chNewline] cl)) \<le> int (words_size cl)"
    using join_length[of chNewline cl] by simp
  have cj: "checked L (join [chNewline] cl) = Inr (join [chNewline] cl)"
    using j assms by (simp add: checked_def)
  let ?out = "topRows @ join [chNewline] cl @ bottomRows"
  have len: "int (length ?out) \<le> int (words_size cl) + max 0 a"
    using t(2) b(2) j sum(3) by simp
  then have "checked L ?out = Inr ?out" using assms by (simp add: checked_def)
  then have "padContentBelow L cl a = Inr ?out"
    using t(1) b(1) cj by (simp add: padContentBelow_def)
  then show ?thesis using len by blast
qed

lemma addLeftPadding_returns:
  assumes "5 * int (length text) + 5 \<le> L"
  shows "\<exists>out. addLeftPadding L text columns = Inr out"
proof (cases "columns < MIN_COLUMNS_FOR_PADDING")
  case True
  then show ?thesis by (simp add: addLeftPadding_def)
next
  case False
  obtain pad where pad: "repeat_str L [chSpace] LEFT_PADDING_SPACES = Inr pad"
      "int (length pad) = 4"
    using repeat_str_length[of LEFT_PADDING_SPACES L chSpace] assms
    by (auto simp: LEFT_PADDING_SPACES_def)
  let ?ls = "split_on chNewline text"
  have "words_size (map (\<lambda>line. pad @ line) ls) = words_size ls + 4 * length ls" for ls
    using pad(2) by (induction ls) simp_all
  moreover have "length ?ls \<le> words_size ?ls" by (simp add: words_size_concat)
  ultimately have "words_size (map (\<lambda>line. pad @ line) ?ls) \<le> 5 * Suc (length text)"
    by (simp add: words_size_split)
  then have "length (join [chNewline] (map (\<lambda>line. pad @ line) ?ls)) \<le> 5 * Suc (length text)"
    using join_length[of chNewline "map (\<lambda>line. pad @ line) ?ls"] by linarith
  then have "checked L (join [chNewline] (map (\<lambda>line. pad @ line) ?ls)) =
      Inr (join [chNewline] (map (\<lambda>line. pad @ line) ?ls))"
    using assms by (simp add: checked_def)
  then show ?thesis using False pad(1) by (simp add: addLeftPadding_def)
qed

lemma page_body_returns:
  assumes w: "0 < width"
    and f: "if content p = [] then formatted = [] else formatContent L (content p) = Inr formatted"
    and a: "a \<le> rows" and rows: "0 \<le> rows"
    and len: "5 * (int (length h) + 2 * int (length formatted) + rows + 3) \<le> L"
  shows "\<exists>out.
      then_do (Some (checked L h)) (\<lambda>header.
      then_do (content_lines L (content p) width) (\<lambda>contentLines.
      then_do (Some (padContentBelow L contentLines a)) (\<lambda>padded.
      then_do (Some (checked L (header @ padded))) (\<lambda>headed.
      Some (addLeftPadding L headed columns))))) = Some (Inr out)"
proof -
  have h: "checked L h = Inr h" using len rows by (simp add: checked_def)
  obtain cl where cl: "content_lines L (content p) width = Some (Inr cl)"
      "words_size cl \<le> 2 * Suc (length formatted)"
    using content_lines_size[OF w f] by blast
  have "int (words_size cl) + max 0 a \<le> L" using cl(2) a rows len by simp
  then obtain padded where padded: "padContentBelow L cl a = Inr padded"
      "int (length padded) \<le> int (words_size cl) + max 0 a"
    using padContentBelow_returns by blast
  have hl: "int (length (h @ padded)) \<le> int (length h) + 2 * int (length formatted) + rows + 2"
    using padded(2) cl(2) a rows by simp
  then have hp: "checked L (h @ padded) = Inr (h @ padded)" using len rows by (simp add: checked_def)
  have "5 * int (length (h @ padded)) + 5 \<le> L" using hl len by (simp add: algebra_simps)
  then obtain out where "addLeftPadding L (h @ padded) columns = Inr out"
    using addLeftPadding_returns by blast
  then show ?thesis using h cl(1) padded(1) hp by (simp add: then_do_def)
qed

lemma header_lines_length:
  "length (join [chNewline] (header_lines p) @ [chNewline]) \<le>
     length (title p) + length (case subtitle p of None \<Rightarrow> [] | Some st \<Rightarrow> st) + 23"
  by (simp add: header_lines_def green_def reset_def js_def split: option.splits)

lemma formatPage_fits:
  assumes "1 \<le> rows" "1 \<le> columns"
    and f: "if content p = [] then formatted = [] else formatContent L (content p) = Inr formatted"
    and len: "5 * (int (length (title p))
                + int (length (case subtitle p of None \<Rightarrow> [] | Some st \<Rightarrow> st))
                + 2 * int (length formatted) + rows + 26) \<le> L"
  shows "\<exists>out. formatPage L p (rows, columns) = Some (Inr out)"
proof -
  let ?w = "columns - (if columns \<ge> MIN_COLUMNS_FOR_PADDING then LEFT_PADDING_SPACES else 0)"
  have w: "0 < ?w" using assms(2) by (simp add: MIN_COLUMNS_FOR_PADDING_def LEFT_PADDING_SPACES_def)
  have rows: "0 \<le> rows" using assms(1) by simp
  show ?thesis
  proof (cases "ptype p = TitlePage")
    case True
    let ?h = "green @ title p @ reset @ [chNewline]"
    have "int (length ?h) \<le> int (length (title p)) + 23"
      by (simp add: green_def reset_def js_def)
    then have l: "5 * (int (length ?h) + 2 * int (length formatted) + rows + 3) \<le> L"
      using len by simp
    have a: "rows - 1 - 1 \<le> rows" by simp
    show ?thesis
      using page_body_returns[OF w f a rows l, of columns] True
      by (simp add: formatPage_def)
  next
    case False
    let ?h = "join [chNewline] (header_lines p) @ [chNewline]"
    have l: "5 * (int (length ?h) + 2 * int (length formatted) + rows + 3) \<le> L"
    proof -
      have "int (length ?h) \<le> int (length (title p))
          + int (length (case subtitle p of None \<Rightarrow> [] | Some st \<Rightarrow> st)) + 23"
        using header_lines_length[of p] by linarith
      then show ?thesis using len by (simp add: algebra_simps)
    qed
    have a: "max 0 (rows - 1 - int (length (header_lines p))) \<le> rows" using rows by simp
    show ?thesis
      using page_body_returns[OF w f a rows l, of columns] False
      by (simp add: formatPage_def)
  qed
qed

text \<open>
  Claim C6, amended. For every page and every terminal size with \<open>rows \<ge> 1\<close> and
  \<open>columns \<ge> 1\<close>, \<open>formatPage\<close> terminates, and it returns the output string or throws
  the \<open>RangeError\<close> of a string longer than the maximal string length \<open>L\<close> of the engine,
  nothing else. It returns when formatting the content returns and
  \<open>5 * (t + s + 2 * f + rows + 26) \<le> L\<close>, for the lengths \<open>t\<close> of the title, \<open>s\<close> of the
  subtitle and \<open>f\<close> of the formatted content; degenerate sizes such as one row and one
  column are among these. The top and the bottom padding are clamped to be \<open>\<ge> 0\<close> for
  every available row count, zero and negative ones included, so \<open>repeat\<close> never throws
  for a negative count.
\<close>

theorem formatPage_total:
  assumes "1 \<le> rows" "1 \<le> columns"
  shows "((\<exists>out. formatPage L p (rows, columns) = Some (Inr out))
          \<or> formatPage L p (rows, columns) = Some (Inl InvalidStringLength))
     \<and> ((if content p = [] then formatted = [] else formatContent L (content p) = Inr formatted)
          \<and> 5 * (int (length (title p))
                  + int (length (case subtitle p of None \<Rightarrow> [] | Some st \<Rightarrow> st))
                  + 2 * int (length formatted) + rows + 26) \<le> L
          \<longrightarrow> (\<exists>out. formatPage L p (rows, columns) = Some (Inr out)))
     \<and> 0 \<le> top_padding contentHeight availableRows
     \<and> 0 \<le> bottom_padding contentHeight availableRows
     \<and> padContentBelow L contentLines availableRows \<noteq> Inl InvalidCountValue"
proof -
  have "returns_or_too_long (formatPage L p (rows, columns))"
    by (rule formatPage_returns[OF assms(2)])
  then have "(\<exists>out. formatPage L p (rows, columns) = Some (Inr out))
          \<or> formatPage L p (rows, columns) = Some (Inl InvalidStringLength)"
    by (auto simp: returns_or_too_long_def fits_or_too_long_def split: option.splits sum.splits)
  moreover have "padContentBelow L contentLines availableRows \<noteq> Inl InvalidCountValue"
    using padContentBelow_fits[of L contentLines availableRows]
    by (auto simp: fits_or_too_long_def)
  moreover have "(if content p = [] then formatted = []
                  else formatContent L (content p) = Inr formatted)
          \<and> 5 * (int (length (title p))
                  + int (length (case subtitle p of None \<Rightarrow> [] | Some st \<Rightarrow> st))
                  + 2 * int (length formatted) + rows + 26) \<le> L
          \<longrightarrow> (\<exists>out. formatPage L p (rows, columns) = Some (Inr out))"
    using formatPage_fits[OF assms, of p formatted L] by blast
  ultimately show ?thesis using padding_nonneg by blast
qed

theorem formatPage_total_witness:
  "formatContent 536870888 (js ''a b'') = Inr (js ''a b'')
   \<and> formatPage 536870888
     \<lparr>ptype = TitlePage, title = js ''T'', subtitle = None, content = js ''a b''\<rparr> (1, 1) =
     Some (Inr (green @ js ''T'' @ reset @ js ''\<newline>a\<newline>b''))
   \<and> top_padding 2 (- 1) = 0 \<and> bottom_padding 2 (- 1) = 0
   \<and> padContentBelow 536870888 [js ''a'', js ''b''] (- 1) = Inr (js ''a\<newline>b'')"
proof -
  have "formatContent 536870888 (js ''a b'') = Inr (js ''a b'')
   \<and> formatPage 536870888
     \<lparr>ptype = TitlePage, title = js ''T'', subtitle = None, content = js ''a b''\<rparr> (1, 1) =
     Some (Inr (green @ js ''T'' @ reset @ js ''\<newline>a\<newline>b''))
   \<and> top_padding 2 (- 1) = 0 \<and> bottom_padding 2 (- 1) = 0
   \<and> padContentBelow 536870888 [js ''a'', js ''b''] (- 1) = Inr (js ''a\<newline>b'')"
    by code_simp
  then show ?thesis
    using formatPage_total[of 1 1 536870888
        "\<lparr>ptype = TitlePage, title = js ''T'', subtitle = None, content = js ''a b''\<rparr>"
        "js ''a b''" 2 "- 1" "[js ''a'', js ''b'']"]
    by simp
qed

text \<open>
  A title page without content: the padding rows alone are \<open>rows - 2\<close> code units, so the
  page cannot be rendered on more than \<open>L + 2\<close> rows.
\<close>

lemma formatPage_too_many_rows:
  assumes "content p = []" "ptype p = TitlePage" "0 \<le> L" "L < rows - 2"
  shows "formatPage L p (rows, columns) = Some (Inl InvalidStringLength)"
proof -
  let ?a = "rows - 1 - 1"
  let ?t = "top_padding 0 ?a"
  let ?b = "bottom_padding 0 ?a"
  have sum: "?t + ?b = rows - 2" "0 \<le> ?t" "0 \<le> ?b"
    using assms(3,4) by (auto simp: top_padding_def bottom_padding_def)
  have pad: "padContentBelow L [] ?a = Inl InvalidStringLength"
  proof (cases "repeat_str L [chNewline] ?t")
    case (Inl e)
    then have "e = InvalidStringLength" using sum(2) by (auto simp: repeat_str_def split: if_splits)
    then show ?thesis using Inl by (simp add: padContentBelow_def)
  next
    case t: (Inr topRows)
    then have lt: "int (length topRows) = ?t"
      using sum(2) by (auto simp: repeat_str_def length_concat sum_list_replicate split: if_splits)
    show ?thesis
    proof (cases "repeat_str L [chNewline] ?b")
      case (Inl e)
      then have "e = InvalidStringLength" using sum(3) by (auto simp: repeat_str_def split: if_splits)
      then show ?thesis using Inl t by (simp add: padContentBelow_def)
    next
      case b: (Inr bottomRows)
      then have lb: "int (length bottomRows) = ?b"
        using sum(3) by (auto simp: repeat_str_def length_concat sum_list_replicate split: if_splits)
      have "checked L (topRows @ [] @ bottomRows) = Inl InvalidStringLength"
        using lt lb sum(1) assms(4) by (simp add: checked_def)
      then show ?thesis using t b
        by (auto simp: padContentBelow_def checked_def split: if_splits)
    qed
  qed
  show ?thesis
    using assms(1,2) pad
    by (auto simp: formatPage_def content_lines_def then_do_def split: sum.splits
        dest: checked_Inl)
qed

text \<open>
  Claim C6 as stated fails: with the maximal string length of 64-bit V8, a title page
  without content cannot be rendered on 600000000 rows (the padded block is too long)
  nor on 1073741826 rows (the top padding alone is too long).
\<close>

theorem formatPage_total_counterexample:
  "formatPage 536870888
     \<lparr>ptype = TitlePage, title = js ''T'', subtitle = None, content = []\<rparr> (600000000, 80) =
     Some (Inl InvalidStringLength)
   \<and> formatPage 536870888
     \<lparr>ptype = TitlePage, title = js ''T'', subtitle = None, content = []\<rparr> (1073741826, 80) =
     Some (Inl InvalidStringLength)
   \<and> repeat_str 536870888 [chNewline] (top_padding 0 (1073741826 - 1 - 1)) = Inl InvalidStringLength"
proof -
  have "repeat_str 536870888 [chNewline] (top_padding 0 (1073741826 - 1 - 1)) = Inl InvalidStringLength"
    by (simp add: repeat_str_def top_padding_def)
  then show ?thesis
    using formatPage_too_many_rows[of "\<lparr>ptype = TitlePage, title = js ''T'', subtitle = None, content = []\<rparr>" 536870888 600000000 80]
      formatPage_too_many_rows[of "\<lparr>ptype = TitlePage, title = js ''T'', subtitle = None, content = []\<rparr>" 536870888 1073741826 80]
    by simp
qed

subsection \<open>Formatting formatted text\<close>





























































lemma run_passes_step:
  "int (length (f s)) \<le> L \<Longrightarrow> run_passes L (f # fs) s = run_passes L fs (f s)"
  by (simp add: checked_def)







end
